theory Spec2Isabelle
  imports Complex_Main
begin

section \<open>Python strings\<close>

text \<open>
  A Python \<^verbatim>\<open>str\<close> is modelled as the list of its code points, each code point
  below 256 being one \<^typ>\<open>char\<close>; \<^verbatim>\<open>len\<close> is \<^const>\<open>length\<close>, indexing is
  \<^const>\<open>nth\<close> (used only below the length), \<^verbatim>\<open>+\<close> is \<^const>\<open>append\<close>.
  Code points from 256 upwards are outside the model.
\<close>

text \<open>\<^verbatim>\<open>str.isspace\<close> on one character: the white space of \<^verbatim>\<open>str.strip()\<close>,
  \<^verbatim>\<open>str.split()\<close> and of the regular-expression class \<^verbatim>\<open>\s\<close>.\<close>

definition whitespace :: "char list" where
  "whitespace = [CHR 0x09, CHR 0x0A, CHR 0x0B, CHR 0x0C, CHR 0x0D,
                 CHR 0x1C, CHR 0x1D, CHR 0x1E, CHR 0x1F, CHR 0x20, CHR 0x85, CHR 0xA0]"

definition isspace :: "char \<Rightarrow> bool" where
  "isspace c = (c \<in> set whitespace)"

text \<open>\<^verbatim>\<open>s.strip()\<close>\<close>

definition strip :: "string \<Rightarrow> string" where
  "strip s = rev (dropWhile isspace (rev (dropWhile isspace s)))"

text \<open>\<^verbatim>\<open>s.split()\<close>: the maximal runs of non-white-space characters, in order.
  \<open>split_from cur s\<close> scans \<open>s\<close> with the token \<open>cur\<close> under construction.\<close>

fun split_from :: "string \<Rightarrow> string \<Rightarrow> string list" where
  "split_from cur [] = (if cur = [] then [] else [cur])"
| "split_from cur (c # cs) =
     (if isspace c then (if cur = [] then split_from [] cs else cur # split_from [] cs)
      else split_from (cur @ [c]) cs)"

definition py_split :: "string \<Rightarrow> string list" where
  "py_split s = split_from [] s"

text \<open>\<^verbatim>\<open>s.startswith(p)\<close>\<close>

fun startswith :: "string \<Rightarrow> string \<Rightarrow> bool" where
  "startswith s [] = True"
| "startswith [] (p # ps) = False"
| "startswith (c # cs) (p # ps) = (c = p \<and> startswith cs ps)"

text \<open>\<^verbatim>\<open>sub in s\<close>\<close>

fun contains :: "string \<Rightarrow> string \<Rightarrow> bool" where
  "contains sub [] = (sub = [])"
| "contains sub (c # cs) = (startswith (c # cs) sub \<or> contains sub cs)"

section \<open>Coordinate validator and move parser (\<^verbatim>\<open>llm_chess_api.py\<close>)\<close>

definition VALID_FILES :: "char list" where
  "VALID_FILES = [CHR ''A'', CHR ''B'', CHR ''C'']"

definition VALID_RANKS :: "char list" where
  "VALID_RANKS = [CHR ''1'', CHR ''2'', CHR ''3'', CHR ''4'']"

definition VALID_COLORS :: "char list" where
  "VALID_COLORS = [CHR ''R'', CHR ''B'', CHR ''G'']"

text \<open>
  \<^verbatim>\<open>is_valid_position(pos_str)\<close>. The argument is \<^verbatim>\<open>None\<close> or a \<^verbatim>\<open>str\<close>. On these
  no operation of the body raises; the \<^verbatim>\<open>except\<close> clause returns \<^verbatim>\<open>False\<close> as well.
  The diagnostic prints are left out.
\<close>

definition is_valid_position :: "string option \<Rightarrow> bool" where
  "is_valid_position pos_str =
     (case pos_str of
        None \<Rightarrow> False
      | Some s \<Rightarrow>
          if s = [] \<or> length s \<noteq> 3 then False
          else
            let color = s ! 0; file = s ! 1; rank = s ! 2 in
            if color \<notin> set VALID_COLORS then False
            else if file \<notin> set VALID_FILES then False
            else if rank \<notin> set VALID_RANKS then False
            else True)"

text \<open>
  \<^verbatim>\<open>find_closest_legal_move(move_str, legal_moves)\<close>. \<^verbatim>\<open>legal_moves\<close> is \<^verbatim>\<open>None\<close>
  or a list of strings. \<^verbatim>\<open>parts\<close> is a list, so the test on it never raises, and the
  bare \<^verbatim>\<open>except\<close> is not reached.
\<close>

definition find_closest_legal_move :: "string \<Rightarrow> string list option \<Rightarrow> string option" where
  "find_closest_legal_move move_str legal_moves =
     (case legal_moves of
        None \<Rightarrow> None
      | Some lm \<Rightarrow>
          if move_str = [] \<or> lm = [] then None
          else
            let parts = py_split move_str in
            if parts = [] \<or> length parts < 1 then Some (hd lm)
            else
              let from_pos = hd parts;
                  closest = filter (\<lambda>move. startswith move from_pos) lm
              in if closest \<noteq> [] then Some (hd closest) else Some (hd lm))"

text \<open>
  \<^verbatim>\<open>validate_and_process_move(move_str, legal_moves=None)\<close>. The first component is
  the returned value (\<^verbatim>\<open>None\<close> or the move string), the second the closest legal
  move the function prints after \<^verbatim>\<open>Did you mean:\<close>, when it prints one.
\<close>

definition validate_and_process_move ::
    "string \<Rightarrow> string list option \<Rightarrow> string option \<times> string option" where
  "validate_and_process_move move_str0 legal_moves =
     (let move_str = strip move_str0;
          positions = py_split move_str
      in
      if length positions \<noteq> 2 then (None, None)
      else
        let from_pos = positions ! 0; to_pos = positions ! 1 in
        if \<not> is_valid_position (Some from_pos) \<or> \<not> is_valid_position (Some to_pos)
        then (None, None)
        else if (case legal_moves of None \<Rightarrow> False | Some lm \<Rightarrow> lm \<noteq> [] \<and> move_str \<notin> set lm)
        then
          (let closest_move = find_closest_legal_move move_str legal_moves in
           (None, (case closest_move of None \<Rightarrow> None
                   | Some c \<Rightarrow> if c \<noteq> [] then Some c else None)))
        else (Some move_str, None))"

text \<open>The value a caller of the parser receives.\<close>

definition parse_move :: "string \<Rightarrow> string list option \<Rightarrow> string option" where
  "parse_move move_str legal_moves = fst (validate_and_process_move move_str legal_moves)"

section \<open>More string operations\<close>

text \<open>\<^verbatim>\<open>str.lower()\<close>, character by character: on code points below 256 it maps
  \<^verbatim>\<open>A\<close> to \<^verbatim>\<open>Z\<close> and the capital letters \<^verbatim>\<open>0xC0\<close> to \<^verbatim>\<open>0xDE\<close> (without the
  multiplication sign \<^verbatim>\<open>0xD7\<close>) to the letters 32 places up and leaves the rest.\<close>

definition upper_letters :: string where
  "upper_letters =
     ''ABCDEFGHIJKLMNOPQRSTUVWXYZ'' @
     [CHR 0xC0, CHR 0xC1, CHR 0xC2, CHR 0xC3, CHR 0xC4, CHR 0xC5, CHR 0xC6, CHR 0xC7,
     CHR 0xC8, CHR 0xC9, CHR 0xCA, CHR 0xCB, CHR 0xCC, CHR 0xCD, CHR 0xCE, CHR 0xCF, CHR
     0xD0, CHR 0xD1, CHR 0xD2, CHR 0xD3, CHR 0xD4, CHR 0xD5, CHR 0xD6, CHR 0xD8, CHR
     0xD9, CHR 0xDA, CHR 0xDB, CHR 0xDC, CHR 0xDD, CHR 0xDE]"

definition lower_letters :: string where
  "lower_letters =
     ''abcdefghijklmnopqrstuvwxyz'' @
     [CHR 0xE0, CHR 0xE1, CHR 0xE2, CHR 0xE3, CHR 0xE4, CHR 0xE5, CHR 0xE6, CHR 0xE7,
     CHR 0xE8, CHR 0xE9, CHR 0xEA, CHR 0xEB, CHR 0xEC, CHR 0xED, CHR 0xEE, CHR 0xEF, CHR
     0xF0, CHR 0xF1, CHR 0xF2, CHR 0xF3, CHR 0xF4, CHR 0xF5, CHR 0xF6, CHR 0xF8, CHR
     0xF9, CHR 0xFA, CHR 0xFB, CHR 0xFC, CHR 0xFD, CHR 0xFE]"

definition lower_char :: "char \<Rightarrow> char" where
  "lower_char c = (case map_of (zip upper_letters lower_letters) c of None \<Rightarrow> c | Some l \<Rightarrow> l)"

definition lower :: "string \<Rightarrow> string" where
  "lower s = map lower_char s"

text \<open>\<^verbatim>\<open>s.split(marker, 1)\<close> for a non-empty \<^verbatim>\<open>marker\<close>: \<open>Some (before, after)\<close> at the
  first occurrence of the marker (a list of two parts), \<open>None\<close> when there is none
  (the list \<^verbatim>\<open>[s]\<close>).\<close>

fun split_once :: "string \<Rightarrow> string \<Rightarrow> (string \<times> string) option" where
  "split_once marker [] = None"
| "split_once marker (c # cs) =
     (if startswith (c # cs) marker then Some ([], drop (length marker) (c # cs))
      else (case split_once marker cs of
              None \<Rightarrow> None
            | Some (before, after) \<Rightarrow> Some (c # before, after)))"

text \<open>\<^verbatim>\<open>s.split("\n")[0]\<close>\<close>

definition first_line :: "string \<Rightarrow> string" where
  "first_line s = takeWhile (\<lambda>c. c \<noteq> CHR 0x0A) s"

text \<open>\<^verbatim>\<open>s.replace(c, "")\<close> for a one-character \<^verbatim>\<open>c\<close>\<close>

definition remove_char :: "char \<Rightarrow> string \<Rightarrow> string" where
  "remove_char c s = filter (\<lambda>x. x \<noteq> c) s"

section \<open>Regular expressions of the \<^verbatim>\<open>re\<close> module\<close>

text \<open>
  The fragment the patterns of \<^verbatim>\<open>get_llm_move\<close> use. A character class is a list of
  items, negated or not; only classes are repeated without bound, which is all the
  patterns do. \<^verbatim>\<open>[A-C]\<close> and \<^verbatim>\<open>[1-4]\<close> are written out as their members.
\<close>

datatype item = Ch char | WordC | DigitC | SpaceC

datatype regex =
    Eps
  | One bool "item list"
  | Star bool "item list"
  | Plus bool "item list"
  | Seq regex regex
  | Alt regex regex
  | Opt regex
  | Grp nat regex

text \<open>\<^verbatim>\<open>\d\<close> and \<^verbatim>\<open>\w\<close> of a \<^verbatim>\<open>str\<close> pattern, on code points below 256.\<close>

definition isdigit :: "char \<Rightarrow> bool" where
  "isdigit c = (let n = (of_char c :: nat) in 48 \<le> n \<and> n \<le> 57)"

definition isword :: "char \<Rightarrow> bool" where
  "isword c =
     (let n = (of_char c :: nat) in
      (48 \<le> n \<and> n \<le> 57) \<or> (65 \<le> n \<and> n \<le> 90) \<or> n = 95 \<or> (97 \<le> n \<and> n \<le> 122) \<or>
      n = 170 \<or> n = 178 \<or> n = 179 \<or> n = 181 \<or> n = 185 \<or> n = 186 \<or>
      (188 \<le> n \<and> n \<le> 190) \<or> (192 \<le> n \<and> n \<le> 214) \<or> (216 \<le> n \<and> n \<le> 246) \<or>
      (248 \<le> n \<and> n \<le> 255))"

text \<open>One item against one character; \<open>ic\<close> is \<^verbatim>\<open>re.IGNORECASE\<close>, under which the
  engine compares the lower-cased character with the lower-cased item.\<close>

fun item_match :: "bool \<Rightarrow> item \<Rightarrow> char \<Rightarrow> bool" where
  "item_match ic (Ch c) x = (if ic then lower_char x = lower_char c else x = c)"
| "item_match ic WordC x = isword (if ic then lower_char x else x)"
| "item_match ic DigitC x = isdigit (if ic then lower_char x else x)"
| "item_match ic SpaceC x = isspace (if ic then lower_char x else x)"

definition in_class :: "bool \<Rightarrow> bool \<Rightarrow> item list \<Rightarrow> char \<Rightarrow> bool" where
  "in_class ic neg items x = (neg \<noteq> list_ex (\<lambda>it. item_match ic it x) items)"

text \<open>The strings left after a greedy repetition of a class, the longest run first:
  the order in which the backtracking engine tries them.\<close>

fun star_rests :: "(char \<Rightarrow> bool) \<Rightarrow> string \<Rightarrow> string list" where
  "star_rests p [] = [[]]"
| "star_rests p (x # xs) = (if p x then star_rests p xs @ [x # xs] else [x # xs])"

fun plus_rests :: "(char \<Rightarrow> bool) \<Rightarrow> string \<Rightarrow> string list" where
  "plus_rests p [] = []"
| "plus_rests p (x # xs) = (if p x then star_rests p xs else [])"

type_synonym groups = "(nat \<times> string) list"

text \<open>
  \<open>rmatch ic r g s\<close>: every way \<open>r\<close> matches a prefix of \<open>s\<close>, as the groups captured
  and the rest of the string, in the order the backtracking engine finds them
  (a greedy quantifier takes the most first, an alternation its left branch first).
\<close>

fun rmatch :: "bool \<Rightarrow> regex \<Rightarrow> groups \<Rightarrow> string \<Rightarrow> (groups \<times> string) list" where
  "rmatch ic Eps g s = [(g, s)]"
| "rmatch ic (One neg items) g s =
     (case s of [] \<Rightarrow> [] | x # xs \<Rightarrow> if in_class ic neg items x then [(g, xs)] else [])"
| "rmatch ic (Star neg items) g s = map (\<lambda>r. (g, r)) (star_rests (in_class ic neg items) s)"
| "rmatch ic (Plus neg items) g s = map (\<lambda>r. (g, r)) (plus_rests (in_class ic neg items) s)"
| "rmatch ic (Seq a b) g s = concat (map (\<lambda>(g', s'). rmatch ic b g' s') (rmatch ic a g s))"
| "rmatch ic (Alt a b) g s = rmatch ic a g s @ rmatch ic b g s"
| "rmatch ic (Opt a) g s = rmatch ic a g s @ [(g, s)]"
| "rmatch ic (Grp n a) g s =
     map (\<lambda>(g', s'). ((n, take (length s - length s') s) # g', s')) (rmatch ic a g s)"

text \<open>\<^verbatim>\<open>re.search(pattern, s)\<close>: the first match at the leftmost position that has
  one, as its groups; \<open>None\<close> when no position has a match.\<close>

fun search :: "bool \<Rightarrow> regex \<Rightarrow> string \<Rightarrow> groups option" where
  "search ic r [] = (case rmatch ic r [] [] of [] \<Rightarrow> None | (g, _) # _ \<Rightarrow> Some g)"
| "search ic r (c # cs) =
     (case rmatch ic r [] (c # cs) of [] \<Rightarrow> search ic r cs | (g, _) # _ \<Rightarrow> Some g)"

text \<open>\<^verbatim>\<open>match.group(n)\<close>; a group that took no part in the match is \<^verbatim>\<open>None\<close>, which an
  f-string prints as \<^verbatim>\<open>None\<close>.\<close>

definition group :: "groups \<Rightarrow> nat \<Rightarrow> string" where
  "group g n = (case map_of g n of Some t \<Rightarrow> t | None \<Rightarrow> ''None'')"

text \<open>\<^verbatim>\<open>len(match.groups())\<close>: the number of groups of the pattern.\<close>

fun ngroups :: "regex \<Rightarrow> nat" where
  "ngroups (Seq a b) = ngroups a + ngroups b"
| "ngroups (Alt a b) = ngroups a + ngroups b"
| "ngroups (Opt a) = ngroups a"
| "ngroups (Grp n a) = Suc (ngroups a)"
| "ngroups r = 0"

text \<open>Building blocks: a literal string, a sequence, \<^verbatim>\<open>r{1,n}\<close>.\<close>

definition lit :: "string \<Rightarrow> regex" where
  "lit s = foldr (\<lambda>c r. Seq (One False [Ch c]) r) s Eps"

definition seqs :: "regex list \<Rightarrow> regex" where
  "seqs rs = foldr Seq rs Eps"

fun alts :: "regex list \<Rightarrow> regex" where
  "alts [] = One False []"
| "alts [r] = r"
| "alts (r # rs) = Alt r (alts rs)"

fun rep_1_to :: "nat \<Rightarrow> regex \<Rightarrow> regex" where
  "rep_1_to 0 r = Eps"
| "rep_1_to (Suc 0) r = r"
| "rep_1_to (Suc n) r = Seq r (Opt (rep_1_to n r))"

section \<open>The patterns of \<^verbatim>\<open>get_llm_move\<close>\<close>

definition RGB :: "item list" where
  "RGB = [Ch CHR ''R'', Ch CHR ''G'', Ch CHR ''B'']"

definition A_C :: "item list" where
  "A_C = [Ch CHR ''A'', Ch CHR ''B'', Ch CHR ''C'']"

definition D1_4 :: "item list" where
  "D1_4 = [Ch CHR ''1'', Ch CHR ''2'', Ch CHR ''3'', Ch CHR ''4'']"

text \<open>\<^verbatim>\<open>[RGB][A-C][1-4]\<close>, \<^verbatim>\<open>[A-C][1-4]\<close>, \<^verbatim>\<open>\s+\<close>, \<^verbatim>\<open>\s*\<close>, \<^verbatim>\<open>\w+\<close>\<close>

definition coord :: regex where
  "coord = seqs [One False RGB, One False A_C, One False D1_4]"

definition square :: regex where
  "square = seqs [One False A_C, One False D1_4]"

definition sp1 :: regex where
  "sp1 = Plus False [SpaceC]"

definition sp0 :: regex where
  "sp0 = Star False [SpaceC]"

definition word1 :: regex where
  "word1 = Plus False [WordC]"

text \<open>The arrow \<^verbatim>\<open>U+2192\<close> of the patterns is a code point above 255: no character of
  a modelled string is equal to it.\<close>

definition arrow :: regex where
  "arrow = One False []"

text \<open>\<^verbatim>\<open><<MOVE>>([^<]+)<<END_MOVE>>\<close>\<close>

definition sentinel_pattern :: regex where
  "sentinel_pattern =
     seqs [lit ''<<MOVE>>'', Grp 1 (Plus True [Ch CHR ''<'']), lit ''<<END_MOVE>>'']"

text \<open>The four patterns tried on the content (lines 677 to 682).\<close>

definition content_move_patterns :: "regex list" where
  "content_move_patterns =
     [seqs [Grp 1 coord, sp1, lit ''to'', sp1, Grp 2 coord],
      seqs [Grp 1 coord, sp0, lit ''-'', sp0, Grp 2 coord],
      seqs [Grp 1 coord, sp0, arrow, sp0, Grp 2 coord],
      seqs [Grp 1 coord, sp1, Grp 2 coord]]"

text \<open>The ten patterns tried on the reasoning (lines 703 to 714).\<close>

definition reasoning_move_patterns :: "regex list" where
  "reasoning_move_patterns =
     [seqs [Grp 1 coord, sp1, lit ''to'', sp1, Grp 2 coord],
      seqs [Grp 1 coord, sp0, lit ''-'', sp0, Grp 2 coord],
      seqs [Grp 1 coord, sp0, arrow, sp0, Grp 2 coord],
      seqs [Grp 1 coord, sp1, Grp 2 coord],
      seqs [lit ''moving'', sp1, word1, sp1, lit ''from'', sp1, Grp 1 coord, sp1, lit ''to'', sp1,
            Grp 2 coord],
      seqs [lit ''move'', sp1, word1, sp1, lit ''from'', sp1, Grp 1 coord, sp1, lit ''to'', sp1,
            Grp 2 coord],
      seqs [Grp 1 coord, Plus True [WordC], Grp 2 coord],
      seqs [lit ''from'', sp1, Grp 1 coord, sp1, lit ''to'', sp1, Grp 2 coord],
      seqs [lit ''play'', sp1, Grp 1 coord, sp1, lit ''to'', sp1, Grp 2 coord],
      seqs [Grp 1 (One False RGB), Plus True (A_C @ [DigitC]), Grp 2 square, sp1, lit ''to'', sp1,
            Grp 3 (One False RGB), Plus True (A_C @ [DigitC]), Grp 4 square]]"

text \<open>\<^verbatim>\<open>(?:on|at|from)\<close> and \<^verbatim>\<open>(?:to|moves to|\<close>arrow\<^verbatim>\<open>)\<close>\<close>

definition on_at_from :: regex where
  "on_at_from = alts [lit ''on'', lit ''at'', lit ''from'']"

definition to_moves_to :: regex where
  "to_moves_to = alts [lit ''to'', lit ''moves to'', arrow]"

text \<open>The six patterns with piece names (lines 731 to 738).\<close>

definition piece_patterns :: "regex list" where
  "piece_patterns =
     [seqs [lit ''knight'', sp1, Opt on_at_from, sp1, Grp 1 coord, sp1, to_moves_to, sp1,
            Grp 2 coord],
      seqs [lit ''pawn'', sp1, Opt on_at_from, sp1, Grp 1 coord, sp1, to_moves_to, sp1,
            Grp 2 coord],
      seqs [alts [lit ''king'', lit ''queen'', lit ''rook'', lit ''bishop''], sp1, Opt on_at_from,
            sp1, Grp 1 coord, sp1, to_moves_to, sp1, Grp 2 coord],
      seqs [lit ''move'', sp1, Opt (alts [lit ''the'', lit ''my'']), sp1, word1, sp1,
            Opt (lit ''from''), sp1, Grp 1 coord, sp1, Opt (alts [lit ''to'', lit ''towards'']),
            sp1, Grp 2 coord],
      seqs [Grp 1 coord, rep_1_to 5 (seqs [sp1, word1]), sp1, Grp 2 coord],
      seqs [on_at_from, sp1, Grp 1 coord, rep_1_to 3 (seqs [sp1, word1]), sp1,
            alts [lit ''to'', lit ''towards''], sp1, Grp 2 coord]]"

text \<open>\<^verbatim>\<open>([RGB])\s*[^\w]*\s*([A-C][1-4])\<close> with its two group numbers, and the two
  patterns with a separate colour letter (lines 749 to 752).\<close>

definition color_then_square :: "nat \<Rightarrow> nat \<Rightarrow> regex" where
  "color_then_square n m =
     seqs [Grp n (One False RGB), sp0, Star True [WordC], sp0, Grp m square]"

definition color_position_patterns :: "regex list" where
  "color_position_patterns =
     [seqs [color_then_square 1 2, sp1, to_moves_to, sp1, color_then_square 3 4],
      seqs [lit ''from'', sp1, color_then_square 1 2, sp1, lit ''to'', sp1,
            color_then_square 3 4]]"

text \<open>\<^verbatim>\<open>re.findall(r'([RGB][A-C][1-4])', s)\<close>: the matches from left to right, none
  overlapping another.\<close>

fun findall_coord :: "string \<Rightarrow> string list" where
  "findall_coord (a # b # c # rest) =
     (if rmatch False coord [] [a, b, c] \<noteq> [] then [a, b, c] # findall_coord rest
      else findall_coord (b # c # rest))"
| "findall_coord s = []"

section \<open>The extraction cascade of \<^verbatim>\<open>get_llm_move\<close>\<close>

datatype error = ProviderError | IndexError | JSONDecodeError | AttributeError | TypeError

text \<open>
  The value of \<^verbatim>\<open>json.loads(tool_call.function.arguments)\<close>: the call raises
  (\<open>BadJson\<close>), or returns a value that is not a dictionary (\<open>NotObject\<close>), or returns a
  dictionary. The tool definitions declare every argument a string, and the model
  holds string values only.
\<close>

datatype json_arguments = BadJson | NotObject | Object "string \<rightharpoonup> string"

record tool_call =
  function_name :: string
  arguments :: json_arguments

text \<open>\<^verbatim>\<open>response.choices[i].message\<close>: \<open>tool_calls\<close> is the empty list when the
  attribute is missing or \<^verbatim>\<open>None\<close>.\<close>

record message =
  tool_calls :: "tool_call list"
  content :: "string option"

text \<open>
  \<^verbatim>\<open>usage.completion_tokens_details\<close>, when the attribute is there and holds an
  object: the object has no attribute \<^verbatim>\<open>reasoning_tokens\<close>, or it has one, whose value
  is a number or \<^verbatim>\<open>None\<close>.
\<close>

datatype tokens_details = NoReasoningAttribute | ReasoningTokens "int option"

text \<open>\<^verbatim>\<open>response.usage\<close>: \<open>completion_tokens_details\<close> is \<open>None\<close> when the attribute is
  missing or holds \<^verbatim>\<open>None\<close>.\<close>

record completion_usage =
  prompt_tokens :: int
  completion_tokens :: int
  total_tokens :: int
  completion_tokens_details :: "tokens_details option"

text \<open>The completion; \<open>usage\<close> is \<open>None\<close> when \<^verbatim>\<open>response.usage\<close> is \<^verbatim>\<open>None\<close>.\<close>

record chat_completion =
  choices :: "message list"
  usage :: "completion_usage option"

text \<open>Lines 591 to 594: the value of the variable \<^verbatim>\<open>reasoning_tokens\<close>, zero unless
  the details hold the attribute; \<open>None\<close> is the \<^verbatim>\<open>None\<close> the attribute may hold.\<close>

definition reasoning_tokens :: "completion_usage \<Rightarrow> int option" where
  "reasoning_tokens u =
     (case completion_tokens_details u of
        None \<Rightarrow> Some 0
      | Some NoReasoningAttribute \<Rightarrow> Some 0
      | Some (ReasoningTokens v) \<Rightarrow> v)"

text \<open>The move every fallback branch assigns (lines 783 to 788, 809 to 814, 856 to 861,
  885 to 890 and 902 to 907 are the same chain).\<close>

definition fallback_move :: "string \<Rightarrow> string" where
  "fallback_move current_color =
     (if current_color = ''BLUE'' then ''BA2 BA3''
      else if current_color = ''RED'' then ''RA2 RA3''
      else ''GA2 GA3'')"

text \<open>\<^verbatim>\<open>not final_move\<close> is the negation of this.\<close>

definition truthy :: "string option \<Rightarrow> bool" where
  "truthy final_move = (case final_move of None \<Rightarrow> False | Some s \<Rightarrow> s \<noteq> [])"

text \<open>Lines 601 to 616: the loop over the tool calls, on the pair of
  \<^verbatim>\<open>reasoning_text\<close> and \<^verbatim>\<open>final_move\<close>.\<close>

fun tool_calls_loop ::
    "tool_call list \<Rightarrow> string \<times> string option \<Rightarrow> error + string \<times> string option" where
  "tool_calls_loop [] st = Inr st"
| "tool_calls_loop (tc # tcs) (reasoning_text, final_move) =
     (case arguments tc of
        BadJson \<Rightarrow> Inl JSONDecodeError
      | NotObject \<Rightarrow>
          if function_name tc = ''think'' \<or> function_name tc = ''decide_move''
          then Inl AttributeError
          else tool_calls_loop tcs (reasoning_text, final_move)
      | Object args \<Rightarrow>
          tool_calls_loop tcs
            (if function_name tc = ''think''
             then (case args ''analysis'' of Some a \<Rightarrow> a | None \<Rightarrow> ''No reasoning provided'')
             else reasoning_text,
             if function_name tc = ''decide_move''
             then Some (''<<MOVE>>'' @ (case args ''move'' of Some m \<Rightarrow> m | None \<Rightarrow> [])
                        @ ''<<END_MOVE>>'')
             else final_move))"

text \<open>Lines 641 to 645: cutting the reasoning at the move markers.\<close>

fun cut_at_move_markers :: "string list \<Rightarrow> string \<Rightarrow> string" where
  "cut_at_move_markers [] reasoning_part = reasoning_part"
| "cut_at_move_markers (move_marker # ms) reasoning_part =
     cut_at_move_markers ms
       (if contains move_marker (lower reasoning_part)
        then strip (case split_once move_marker reasoning_part of
                      None \<Rightarrow> reasoning_part | Some (before, after) \<Rightarrow> before)
        else reasoning_part)"

text \<open>Lines 635 to 652: the loop over the reasoning markers; \<open>None\<close> when no marker
  is in the content and \<^verbatim>\<open>reasoning_text\<close> stays as it is.\<close>

fun reasoning_marker_loop :: "string list \<Rightarrow> string \<Rightarrow> string option" where
  "reasoning_marker_loop [] lower_content = None"
| "reasoning_marker_loop (marker # ms) lower_content =
     (if contains marker lower_content
      then (case split_once marker lower_content of
              None \<Rightarrow> reasoning_marker_loop ms lower_content
            | Some (before, after) \<Rightarrow>
                Some (cut_at_move_markers
                        [''my move:'', ''move:'', ''i choose:'', ''final move:''] (strip after)))
      else reasoning_marker_loop ms lower_content)"

text \<open>Lines 660 to 672: the loop over the move markers.\<close>

fun move_marker_loop :: "string list \<Rightarrow> string \<Rightarrow> string option" where
  "move_marker_loop [] lower_content = None"
| "move_marker_loop (marker # ms) lower_content =
     (if contains marker lower_content
      then (case split_once marker lower_content of
              None \<Rightarrow> move_marker_loop ms lower_content
            | Some (before, after) \<Rightarrow>
                let potential_move = strip (first_line (strip after));
                    potential_move =
                      strip (remove_char (CHR 0x22)
                               (remove_char (CHR 0x27) (remove_char CHR ''.'' potential_move)))
                in if CHR '' '' \<in> set potential_move \<and> 5 \<le> length potential_move
                   then Some potential_move
                   else move_marker_loop ms lower_content)
      else move_marker_loop ms lower_content)"

text \<open>Lines 684 to 689, 740 to 745 and 754 to 762: the first pattern of a list that
  matches gives the move, from two groups or from four.\<close>

fun two_group_loop :: "bool \<Rightarrow> regex list \<Rightarrow> string \<Rightarrow> string option" where
  "two_group_loop ic [] s = None"
| "two_group_loop ic (pattern # ps) s =
     (case search ic pattern s of
        None \<Rightarrow> two_group_loop ic ps s
      | Some g \<Rightarrow> Some (group g 1 @ '' '' @ group g 2))"

fun four_group_loop :: "bool \<Rightarrow> regex list \<Rightarrow> string \<Rightarrow> string option" where
  "four_group_loop ic [] s = None"
| "four_group_loop ic (pattern # ps) s =
     (case search ic pattern s of
        None \<Rightarrow> four_group_loop ic ps s
      | Some g \<Rightarrow> Some ((group g 1 @ group g 2) @ '' '' @ (group g 3 @ group g 4)))"

text \<open>Lines 716 to 726: the loop over the reasoning patterns, which tells the
  patterns of two groups from the pattern of four.\<close>

fun reasoning_pattern_loop :: "regex list \<Rightarrow> string \<Rightarrow> string option" where
  "reasoning_pattern_loop [] s = None"
| "reasoning_pattern_loop (pattern # ps) s =
     (case search True pattern s of
        None \<Rightarrow> reasoning_pattern_loop ps s
      | Some g \<Rightarrow>
          if ngroups pattern = 2 then Some (group g 1 @ '' '' @ group g 2)
          else if ngroups pattern = 4
          then Some (group g 1 @ group g 2 @ '' '' @ group g 3 @ group g 4)
          else reasoning_pattern_loop ps s)"

text \<open>Lines 770 to 777: the first two neighbours of the list with the same first
  character.\<close>

fun proximity_loop :: "string list \<Rightarrow> string option" where
  "proximity_loop (a # b # rest) =
     (if a ! 0 = b ! 0 then Some (a @ '' '' @ b) else proximity_loop (b # rest))"
| "proximity_loop cs = None"

text \<open>
  Lines 620 to 695: the free-text content, entered when no move came from the tools
  and the content is not empty. The result is the pair of \<^verbatim>\<open>reasoning_text\<close> and
  \<^verbatim>\<open>final_move\<close>.
\<close>

definition content_stage :: "string \<Rightarrow> string \<Rightarrow> string \<times> string option" where
  "content_stage reasoning_text message_content =
     (let content = strip message_content in
      case search False sentinel_pattern content of
        Some g \<Rightarrow> (reasoning_text, Some (strip (group g 1)))
      | None \<Rightarrow>
          let reasoning_text =
                (if reasoning_text = ''No explicit reasoning provided''
                 then (case reasoning_marker_loop
                              [''reasoning:'', ''analysis:'', ''thinking:'', ''i think:'']
                              (lower content) of
                         None \<Rightarrow> reasoning_text | Some r \<Rightarrow> r)
                 else reasoning_text);
              final_move =
                move_marker_loop
                  [''move:'', ''my move:'', ''i choose:'', ''final move:'', ''i play:'']
                  (lower content);
              final_move =
                (if \<not> truthy final_move then two_group_loop False content_move_patterns content
                 else final_move);
              final_move = (if \<not> truthy final_move then Some content else final_move)
          in (reasoning_text, final_move))"

text \<open>
  Lines 703 to 777: the search of the reasoning for a move: the ten patterns, the
  piece patterns and inside their failure the colour patterns, then the neighbours.
\<close>

definition search_reasoning :: "string \<Rightarrow> string option" where
  "search_reasoning reasoning_text =
     (let final_move = reasoning_pattern_loop reasoning_move_patterns reasoning_text;
          final_move =
            (if \<not> truthy final_move
             then (let final_move = two_group_loop True piece_patterns reasoning_text in
                   if \<not> truthy final_move
                   then four_group_loop True color_position_patterns reasoning_text
                   else final_move)
             else final_move)
      in if \<not> truthy final_move then proximity_loop (findall_coord reasoning_text)
         else final_move)"

text \<open>Lines 780 to 789: the default move when \<^verbatim>\<open>final_move\<close> is \<^verbatim>\<open>None\<close> or empty.\<close>

definition last_resort :: "string \<Rightarrow> string option \<Rightarrow> string" where
  "last_resort current_color final_move =
     (case final_move of
        None \<Rightarrow> fallback_move current_color
      | Some m \<Rightarrow> if m = [] then fallback_move current_color else m)"

text \<open>Lines 792 to 796: the sentinel markers are taken off.\<close>

definition unwrap_sentinel :: "string \<Rightarrow> string" where
  "unwrap_sentinel final_move =
     (if contains ''<<MOVE>>'' final_move \<and> contains ''<<END_MOVE>>'' final_move
      then (case search False sentinel_pattern final_move of
              Some g \<Rightarrow> strip (group g 1)
            | None \<Rightarrow> final_move)
      else final_move)"

text \<open>Lines 799 to 803: a move of six characters without a space gets one.\<close>

definition reformat_move :: "string \<Rightarrow> string" where
  "reformat_move final_move =
     (if final_move \<noteq> [] \<and> CHR '' '' \<notin> set final_move
      then (if length final_move = 6 then take 3 final_move @ '' '' @ drop 3 final_move
            else final_move)
      else final_move)"

text \<open>
  Lines 596 to 777 on one message: the tool calls, the content when the tools gave no
  move, the reasoning when there is still none. The result is \<^verbatim>\<open>reasoning_text\<close> and
  \<^verbatim>\<open>final_move\<close> as they reach line 780, or the exception raised on the way.
\<close>

definition cascade_stages :: "message \<Rightarrow> error + string \<times> string option" where
  "cascade_stages msg =
     (case tool_calls_loop (tool_calls msg) (''No explicit reasoning provided'', None) of
        Inl e \<Rightarrow> Inl e
      | Inr (reasoning_text, final_move) \<Rightarrow>
          let (reasoning_text, final_move) =
                (if \<not> truthy final_move \<and> truthy (content msg)
                 then (case content msg of
                         Some c \<Rightarrow> content_stage reasoning_text c
                       | None \<Rightarrow> (reasoning_text, final_move))
                 else (reasoning_text, final_move))
          in Inr (reasoning_text,
                  if \<not> truthy final_move then search_reasoning reasoning_text else final_move))"

text \<open>
  Lines 596 to 803: the reasoning and the candidate move that goes to the validation.
  The test of line 780 stands inside the block of line 698; a move that did not enter
  the block is not empty and passes \<open>last_resort\<close> as it is.
\<close>

definition extract_move :: "string \<Rightarrow> message \<Rightarrow> error + string \<times> string" where
  "extract_move current_color msg =
     (case cascade_stages msg of
        Inl e \<Rightarrow> Inl e
      | Inr (reasoning_text, final_move) \<Rightarrow>
          let final_move = last_resort current_color final_move;
              final_move = unwrap_sentinel final_move;
              final_move = reformat_move final_move
          in Inr (reasoning_text, final_move))"

text \<open>Lines 806 to 814: the validation of the candidate, with the fallback.\<close>

definition validated_or_fallback :: "string \<Rightarrow> string \<Rightarrow> string" where
  "validated_or_fallback current_color final_move =
     (case parse_move final_move None of
        None \<Rightarrow> fallback_move current_color
      | Some m \<Rightarrow> if m \<noteq> [] then m else fallback_move current_color)"

section \<open>The agent memory\<close>

record move_data =
  timestamp :: string
  color :: string
  move :: string
  reasoning :: string
  thinking_time :: real
  valid :: bool

record token_usage_entry =
  usage_timestamp :: string
  usage_prompt_tokens :: int
  usage_completion_tokens :: int
  usage_reasoning_tokens :: int
  usage_total_tokens :: int

record thinking_stat =
  stat_timestamp :: string
  elapsed_time :: real
  thinking_ratio :: "real option"

text \<open>\<^verbatim>\<open>AGENT_MEMORY\<close>, with the entries the code writes.\<close>

record agent_memory =
  moves :: "move_data list"
  token_usage :: "token_usage_entry list"
  thinking_stats :: "thinking_stat list"
  start_time :: "string option"

definition AGENT_MEMORY :: agent_memory where
  "AGENT_MEMORY = \<lparr>moves = [], token_usage = [], thinking_stats = [], start_time = None\<rparr>"

text \<open>The readings of the clock during one call: the two of \<^verbatim>\<open>datetime.now()\<close> and
  the time the provider call took.\<close>

record clock =
  first_now :: string
  second_now :: string
  call_elapsed :: real

text \<open>
  \<^verbatim>\<open>get_llm_move(board_state, current_color, error_feedback)\<close>, on the memory. The
  argument \<open>response\<close> is what the part of the \<^verbatim>\<open>try\<close> block up to the provider call
  gives: the completion, or an exception raised there (the prompt is built from
  \<^verbatim>\<open>board_state\<close> and \<^verbatim>\<open>error_feedback\<close>, which have no other use). Reading the
  token counts of a usage that is \<^verbatim>\<open>None\<close> raises (line 586), and so does the
  comparison of line 830 on reasoning tokens that are \<^verbatim>\<open>None\<close>, after the validation
  and before anything is recorded. Every exception of the block is caught and answered
  with the fallback move. The result is the returned move and the memory after the
  call.
\<close>

definition get_llm_move ::
    "agent_memory \<Rightarrow> clock \<Rightarrow> string \<Rightarrow> error + chat_completion \<Rightarrow> string \<times> agent_memory" where
  "get_llm_move mem clk current_color response =
     (let mem = (if start_time mem = None then mem\<lparr>start_time := Some (first_now clk)\<rparr> else mem);
          timestamp = second_now clk
      in
      case (case response of
              Inl e \<Rightarrow> Inl e
            | Inr r \<Rightarrow>
                (case usage r of
                   None \<Rightarrow> Inl AttributeError
                 | Some u \<Rightarrow>
                     (case choices r of
                        [] \<Rightarrow> Inl IndexError
                      | msg # _ \<Rightarrow>
                          (case extract_move current_color msg of
                             Inl e \<Rightarrow> Inl e
                           | Inr (reasoning_text, final_move) \<Rightarrow>
                               (case reasoning_tokens u of
                                  None \<Rightarrow> Inl TypeError
                                | Some tokens \<Rightarrow>
                                    Inr (u, tokens, reasoning_text, final_move)))))) of
        Inl e \<Rightarrow> (fallback_move current_color, mem)
      | Inr (u, tokens, reasoning_text, final_move) \<Rightarrow>
          let final_move = validated_or_fallback current_color final_move;
              token_usage_new =
                \<lparr>usage_timestamp = timestamp,
                 usage_prompt_tokens = prompt_tokens u,
                 usage_completion_tokens = completion_tokens u,
                 usage_reasoning_tokens = tokens,
                 usage_total_tokens = total_tokens u\<rparr>;
              thinking_stat_new =
                \<lparr>stat_timestamp = timestamp,
                 elapsed_time = call_elapsed clk,
                 thinking_ratio =
                   (if tokens > 0
                    then Some (real_of_int tokens / real_of_int (max 1 (completion_tokens u)))
                    else None)\<rparr>;
              move_data_new =
                \<lparr>timestamp = timestamp, color = current_color, move = final_move,
                 reasoning = reasoning_text, thinking_time = call_elapsed clk, valid = True\<rparr>
          in (final_move,
              mem\<lparr>token_usage := token_usage mem @ [token_usage_new],
                  thinking_stats := thinking_stats mem @ [thinking_stat_new],
                  moves := moves mem @ [move_data_new]\<rparr>))"

text \<open>Lines 881 to 908 of the handler \<^verbatim>\<open>get_move\<close>: the last checks on the move
  \<^verbatim>\<open>get_llm_move\<close> returned.\<close>

definition final_check :: "string \<Rightarrow> string option \<Rightarrow> string" where
  "final_check current_color returned =
     (let move = (case returned of
                    None \<Rightarrow> fallback_move current_color
                  | Some m \<Rightarrow> if m = [] then fallback_move current_color else m);
          move = (case search False sentinel_pattern move of
                    Some g \<Rightarrow> strip (group g 1)
                  | None \<Rightarrow> move)
      in if truthy (parse_move move None) then move else fallback_move current_color)"

text \<open>The handler of \<^verbatim>\<open>POST /get-move\<close>: the move and the reasoning of the answer, and
  the memory after the request.\<close>

definition get_move ::
    "agent_memory \<Rightarrow> clock \<Rightarrow> string \<Rightarrow> error + chat_completion
       \<Rightarrow> (string \<times> string) \<times> agent_memory" where
  "get_move mem clk current_color response =
     (let (returned, mem) = get_llm_move mem clk current_color response;
          move = final_check current_color (Some returned);
          reasoning_out =
            (if moves mem \<noteq> [] then reasoning (last (moves mem)) else ''No reasoning available'')
      in ((move, reasoning_out), mem))"

text \<open>The \<^verbatim>\<open>move_validity\<close> statistics of the handler of \<^verbatim>\<open>GET /agent-memory\<close>
  (lines 952 to 957). The quotient of the two integers is a float; equal integers have
  the quotient one in both.\<close>

record move_validity =
  valid_moves :: int
  invalid_moves :: int
  validity_percentage :: real

definition agent_memory_move_validity :: "agent_memory \<Rightarrow> move_validity" where
  "agent_memory_move_validity mem =
     (let valid_moves = int (length (filter valid (moves mem))) in
      \<lparr>valid_moves = valid_moves,
       invalid_moves = int (length (moves mem)) - valid_moves,
       validity_percentage =
         (real_of_int valid_moves / real_of_int (max 1 (int (length (moves mem))))) * 100\<rparr>)"

text \<open>The state of the memory after any number of move requests. No other handler
  writes to it.\<close>

inductive reachable :: "agent_memory \<Rightarrow> bool" where
  initial: "reachable AGENT_MEMORY"
| request: "reachable mem \<Longrightarrow> reachable (snd (get_move mem clk current_color response))"

section \<open>The provider call (\<^verbatim>\<open>call_all/one_function_to_call_them_all.py\<close>)\<close>

text \<open>
  \<^verbatim>\<open>str.upper()\<close> on a string of code points below 256. Two of its results lie above
  255, so the result is the list of its code points: the inverse of \<^verbatim>\<open>lower\<close> on the
  letters, \<^verbatim>\<open>SS\<close> for \<^verbatim>\<open>0xDF\<close>, \<^verbatim>\<open>U+039C\<close> for \<^verbatim>\<open>0xB5\<close> and \<^verbatim>\<open>U+0178\<close> for \<^verbatim>\<open>0xFF\<close>.
  The name of an environment variable is such a list.
\<close>

definition code_points :: "string \<Rightarrow> nat list" where
  "code_points s = map of_char s"

definition upper_char :: "char \<Rightarrow> nat list" where
  "upper_char c =
     (if c = CHR 0xDF then [83, 83]
      else if c = CHR 0xB5 then [924]
      else if c = CHR 0xFF then [376]
      else (case map_of (zip lower_letters upper_letters) c of
              None \<Rightarrow> [of_char c]
            | Some u \<Rightarrow> [of_char u]))"

definition upper :: "string \<Rightarrow> nat list" where
  "upper s = concat (map upper_char s)"

text \<open>\<^verbatim>\<open>repr(s)\<close> of a string, which is \<^verbatim>\<open>str(e)\<close> of the \<^verbatim>\<open>KeyError\<close> for the key
  \<^verbatim>\<open>s\<close>.\<close>

definition hex_digit :: "nat \<Rightarrow> char" where
  "hex_digit d = ''0123456789abcdef'' ! d"

definition repr_char :: "char \<Rightarrow> char \<Rightarrow> string" where
  "repr_char quote c =
     (let n = (of_char c :: nat) in
      if c = quote \<or> c = CHR 0x5C then [CHR 0x5C, c]
      else if n = 9 then [CHR 0x5C, CHR ''t'']
      else if n = 10 then [CHR 0x5C, CHR ''n'']
      else if n = 13 then [CHR 0x5C, CHR ''r'']
      else if n < 32 \<or> n = 127 \<or> (128 \<le> n \<and> n \<le> 160) \<or> n = 173
      then [CHR 0x5C, CHR ''x'', hex_digit (n div 16), hex_digit (n mod 16)]
      else [c])"

definition py_repr :: "string \<Rightarrow> string" where
  "py_repr s =
     (let quote = (if CHR 0x27 \<in> set s \<and> CHR 0x22 \<notin> set s then CHR 0x22 else CHR 0x27)
      in [quote] @ concat (map (repr_char quote) s) @ [quote])"

text \<open>The exceptions raised inside the \<^verbatim>\<open>try\<close> block; \<open>ClientError m\<close> is an
  exception of the provider's client with \<^verbatim>\<open>str(e)\<close> equal to \<open>m\<close>.\<close>

datatype call_error = ValueError string | KeyError string | ListIndexError | ClientError string

fun str_of :: "call_error \<Rightarrow> string" where
  "str_of (ValueError m) = m"
| "str_of (KeyError k) = py_repr k"
| "str_of ListIndexError = ''list index out of range''"
| "str_of (ClientError m) = m"

definition DEFAULT_MODELS :: "string \<rightharpoonup> string" where
  "DEFAULT_MODELS =
     [''openai'' \<mapsto> ''gpt-4o'',
      ''anthropic'' \<mapsto> ''claude-3-5-sonnet-latest'',
      ''openrouter'' \<mapsto> ''google/gemini-flash-1.5-8b'',
      ''groq'' \<mapsto> ''llama-3.3-70b-versatile'']"

definition BASE_URLS :: "string \<rightharpoonup> string option" where
  "BASE_URLS =
     [''openai'' \<mapsto> Some ''https://api.openai.com/v1'',
      ''anthropic'' \<mapsto> None,
      ''openrouter'' \<mapsto> Some ''https://openrouter.ai/api/v1'',
      ''groq'' \<mapsto> Some ''https://api.groq.com/openai/v1'']"

text \<open>\<^verbatim>\<open>d[k]\<close> on a dictionary\<close>

definition subscript :: "(string \<rightharpoonup> 'v) \<Rightarrow> string \<Rightarrow> call_error + 'v" where
  "subscript d k = (case d k of None \<Rightarrow> Inl (KeyError k) | Some v \<Rightarrow> Inr v)"

text \<open>\<^verbatim>\<open>get_api_key(provider)\<close>, on the environment \<^verbatim>\<open>os.getenv\<close> reads.\<close>

definition get_api_key :: "(nat list \<rightharpoonup> string) \<Rightarrow> string \<Rightarrow> string" where
  "get_api_key environ provider =
     (case environ (upper provider @ code_points ''_API_KEY'') of None \<Rightarrow> [] | Some v \<Rightarrow> v)"

text \<open>
  What the function hands to a provider's client: the arguments of
  \<^verbatim>\<open>AsyncAnthropic(api_key).messages.create\<close> (key, model, \<^verbatim>\<open>max_tokens\<close>, system
  message, the text of the one user message, additional parameters) and those of
  \<^verbatim>\<open>AsyncOpenAI(api_key, base_url).chat.completions.create\<close> (key, base URL, model,
  messages, \<^verbatim>\<open>max_tokens\<close> when given, additional parameters). The additional
  parameters are of any type \<open>'p\<close>; the client merges them.
\<close>

datatype 'p request =
    AnthropicMessages string string int "string option" string "'p option"
  | OpenAIChat string "string option" string "(string \<rightharpoonup> string) list" "int option" "'p option"

text \<open>\<^verbatim>\<open>"\n\n".join([f"{m['role']}: {m['content']}" for m in messages])\<close>\<close>

fun message_lines :: "(string \<rightharpoonup> string) list \<Rightarrow> call_error + string list" where
  "message_lines [] = Inr []"
| "message_lines (m # ms) =
     (case subscript m ''role'' of
        Inl e \<Rightarrow> Inl e
      | Inr role \<Rightarrow>
          (case subscript m ''content'' of
             Inl e \<Rightarrow> Inl e
           | Inr text \<Rightarrow>
               (case message_lines ms of
                  Inl e \<Rightarrow> Inl e
                | Inr ls \<Rightarrow> Inr ((role @ '': '' @ text) # ls))))"

fun join :: "string \<Rightarrow> string list \<Rightarrow> string" where
  "join sep [] = []"
| "join sep [l] = l"
| "join sep (l # ls) = l @ sep @ join sep ls"

text \<open>\<^verbatim>\<open>{"role": "system", "content": system_message}\<close>\<close>

definition system_dict :: "string \<Rightarrow> (string \<rightharpoonup> string)" where
  "system_dict system_message = Map.empty(''role'' \<mapsto> ''system'', ''content'' \<mapsto> system_message)"

text \<open>
  The provider behind the two clients answers a request with the texts of the
  response (the content blocks, or the contents of the choices) or with the
  \<^verbatim>\<open>str(e)\<close> of the exception the call raises. \<open>send\<close> makes the call and reads the
  first text, as \<^verbatim>\<open>response.content[0].text\<close> and
  \<^verbatim>\<open>response.choices[0].message.content\<close> do; its second component is the request
  made.
\<close>

definition send ::
    "('p request \<Rightarrow> string + string list) \<Rightarrow> 'p request \<Rightarrow> (call_error + string) \<times> 'p request list" where
  "send client req =
     (case client req of
        Inl m \<Rightarrow> (Inl (ClientError m), [req])
      | Inr texts \<Rightarrow>
          (case texts of
             [] \<Rightarrow> (Inl ListIndexError, [req])
           | t # _ \<Rightarrow> (Inr t, [req])))"

text \<open>
  The body of the \<^verbatim>\<open>try\<close> block. The result is the returned text or the exception
  raised, and the requests made to the \<open>client\<close>.
\<close>

definition call_body ::
    "(nat list \<rightharpoonup> string) \<Rightarrow> ('p request \<Rightarrow> string + string list) \<Rightarrow> (string \<rightharpoonup> string) list \<Rightarrow> string
       \<Rightarrow> string option \<Rightarrow> string option \<Rightarrow> int option \<Rightarrow> 'p option
       \<Rightarrow> (call_error + string) \<times> 'p request list" where
  "call_body environ client messages provider model system_message max_tokens additional_params =
     (let api_key = get_api_key environ provider in
      if api_key = [] \<or> strip api_key = []
      then (Inl (ValueError (''No API key found for '' @ provider)), [])
      else
        case (if model = None \<or> model = Some [] \<or> model = Some ''gpt-4o''
              then subscript DEFAULT_MODELS provider
              else (case model of Some m \<Rightarrow> Inr m | None \<Rightarrow> Inr [])) of
          Inl e \<Rightarrow> (Inl e, [])
        | Inr model \<Rightarrow>
            if provider = ''anthropic''
            then
              (case message_lines messages of
                 Inl e \<Rightarrow> (Inl e, [])
               | Inr ls \<Rightarrow>
                  (let req = AnthropicMessages api_key model
                               (case max_tokens of
                                  None \<Rightarrow> 8000 | Some n \<Rightarrow> if n = 0 then 8000 else n)
                               system_message (join [CHR 0x0A, CHR 0x0A] ls) additional_params
                   in send client req))
            else
              (case subscript BASE_URLS provider of
                 Inl e \<Rightarrow> (Inl e, [])
               | Inr base_url \<Rightarrow>
                  (let req = OpenAIChat api_key base_url model
                               (if system_message = None \<or> system_message = Some [] then messages
                                else system_dict (case system_message of
                                                    Some t \<Rightarrow> t | None \<Rightarrow> [])
                                     # messages)
                               (case max_tokens of
                                  None \<Rightarrow> None | Some n \<Rightarrow> if n = 0 then None else Some n)
                               additional_params
                   in send client req)))"

text \<open>
  \<^verbatim>\<open>one_function_to_call_them_all\<close>: every exception of the body is caught and
  raised again as an \<^verbatim>\<open>Exception\<close> with the provider in its message. \<open>Inl\<close> carries
  the message of the exception raised, \<open>Inr\<close> the text returned.
\<close>

definition one_function_to_call_them_all ::
    "(nat list \<rightharpoonup> string) \<Rightarrow> ('p request \<Rightarrow> string + string list) \<Rightarrow> (string \<rightharpoonup> string) list \<Rightarrow> string
       \<Rightarrow> string option \<Rightarrow> string option \<Rightarrow> int option \<Rightarrow> 'p option
       \<Rightarrow> (string + string) \<times> 'p request list" where
  "one_function_to_call_them_all environ client messages provider model system_message
       max_tokens additional_params =
     (case call_body environ client messages provider model system_message max_tokens
             additional_params of
        (Inl e, requests) \<Rightarrow> (Inl (''Error calling '' @ provider @ '' LLM: '' @ str_of e), requests)
      | (Inr text, requests) \<Rightarrow> (Inr text, requests))"

section \<open>Notions of the specification\<close>

text \<open>A move as the data model serialises it: two position tokens of three characters
  with exactly one space between them.\<close>

definition well_formed_move :: "string \<Rightarrow> bool" where
  "well_formed_move m =
     (length m = 7 \<and> is_valid_position (Some (take 3 m)) \<and> m ! 3 = CHR '' '' \<and>
      is_valid_position (Some (drop 4 m)))"

text \<open>The \<^verbatim>\<open>from\<close> token of a serialised move: its first three characters.\<close>

definition from_token :: "string \<Rightarrow> string" where
  "from_token m = take 3 m"

text \<open>The candidate move that reaches the parser at line 806; \<open>None\<close> when an exception
  ended the block before.\<close>

definition candidate :: "string \<Rightarrow> error + chat_completion \<Rightarrow> string option" where
  "candidate current_color response =
     (case response of
        Inl e \<Rightarrow> None
      | Inr r \<Rightarrow>
          (case usage r of
             None \<Rightarrow> None
           | Some u \<Rightarrow>
               (case choices r of
                  [] \<Rightarrow> None
                | msg # _ \<Rightarrow>
                    (case extract_move current_color msg of
                       Inl e \<Rightarrow> None
                     | Inr (reasoning_text, final_move) \<Rightarrow> Some final_move))))"

text \<open>The token usage of the response can be read: the usage is there (line 586) and the
  reasoning tokens are a number at the comparison of line 830.\<close>

definition usage_readable :: "error + chat_completion \<Rightarrow> bool" where
  "usage_readable response =
     (case response of
        Inl e \<Rightarrow> False
      | Inr r \<Rightarrow> (case usage r of None \<Rightarrow> False | Some u \<Rightarrow> reasoning_tokens u \<noteq> None))"

text \<open>No stage before the fixed fallback found a move: \<^verbatim>\<open>final_move\<close> is \<^verbatim>\<open>None\<close> or
  empty at line 780.\<close>

definition exhausted :: "error + chat_completion \<Rightarrow> bool" where
  "exhausted response =
     (case response of
        Inl e \<Rightarrow> False
      | Inr r \<Rightarrow>
          (case usage r of
             None \<Rightarrow> False
           | Some u \<Rightarrow>
               (case choices r of
                  [] \<Rightarrow> False
                | msg # _ \<Rightarrow>
                    (case cascade_stages msg of
                       Inl e \<Rightarrow> False
                     | Inr (reasoning_text, final_move) \<Rightarrow> \<not> truthy final_move))))"

text \<open>The loop over the tool calls does not raise on this call: its arguments are
  JSON, and a dictionary when the call is one of the two the loop reads.\<close>

definition arguments_ok :: "tool_call \<Rightarrow> bool" where
  "arguments_ok tc =
     (case arguments tc of
        BadJson \<Rightarrow> False
      | NotObject \<Rightarrow> function_name tc \<noteq> ''think'' \<and> function_name tc \<noteq> ''decide_move''
      | Object args \<Rightarrow> True)"

text \<open>The move argument of a \<^verbatim>\<open>decide_move\<close> invocation (empty when the dictionary has
  none), and the move arguments of the \<^verbatim>\<open>decide_move\<close> invocations of a response, in
  their order.\<close>

definition move_argument :: "tool_call \<Rightarrow> string option" where
  "move_argument tc =
     (if function_name tc = ''decide_move''
      then (case arguments tc of
              Object args \<Rightarrow> (case args ''move'' of None \<Rightarrow> Some [] | Some m \<Rightarrow> Some m)
            | _ \<Rightarrow> None)
      else None)"

definition decisions :: "tool_call list \<Rightarrow> string list" where
  "decisions calls = List.map_filter move_argument calls"

text \<open>Tool invocations as the two tool definitions shape them, completions with one
  choice (without token details, and with given ones), and a reading of the clock, for
  the examples.\<close>

definition decide_call :: "string \<Rightarrow> tool_call" where
  "decide_call m = \<lparr>function_name = ''decide_move'', arguments = Object (Map.empty(''move'' \<mapsto> m))\<rparr>"

definition think_call :: "string \<Rightarrow> tool_call" where
  "think_call a = \<lparr>function_name = ''think'', arguments = Object (Map.empty(''analysis'' \<mapsto> a))\<rparr>"

definition completion :: "message \<Rightarrow> chat_completion" where
  "completion msg =
     \<lparr>choices = [msg],
      usage = Some \<lparr>prompt_tokens = 900, completion_tokens = 40, total_tokens = 940,
                    completion_tokens_details = None\<rparr>\<rparr>"

definition completion_reporting :: "tokens_details \<Rightarrow> message \<Rightarrow> chat_completion" where
  "completion_reporting details msg =
     \<lparr>choices = [msg],
      usage = Some \<lparr>prompt_tokens = 900, completion_tokens = 40, total_tokens = 940,
                    completion_tokens_details = Some details\<rparr>\<rparr>"

definition noon :: clock where
  "noon = \<lparr>first_now = ''2025-01-01T12:00:00'', second_now = ''2025-01-01T12:00:00'',
           call_elapsed = 2\<rparr>"

text \<open>A pattern that cannot match without reading one of the digits 1 to 4: a check on
  the shape of the pattern.\<close>

fun must_digit :: "regex \<Rightarrow> bool" where
  "must_digit (One neg items) = (\<not> neg \<and> list_all (\<lambda>it. it \<in> set D1_4) items)"
| "must_digit (Plus neg items) = (\<not> neg \<and> list_all (\<lambda>it. it \<in> set D1_4) items)"
| "must_digit (Seq a b) = (must_digit a \<or> must_digit b)"
| "must_digit (Alt a b) = (must_digit a \<and> must_digit b)"
| "must_digit (Grp n a) = must_digit a"
| "must_digit r = False"

section \<open>Notions of the proofs\<close>

text \<open>\<open>needs P ic r\<close>: the pattern matches no string without a character in \<open>P\<close>.\<close>

definition needs :: "(char \<Rightarrow> bool) \<Rightarrow> bool \<Rightarrow> regex \<Rightarrow> bool" where
  "needs P ic r = (\<forall>g s. (\<forall>x \<in> set s. \<not> P x) \<longrightarrow> rmatch ic r g s = [])"

section \<open>Properties of the validator and the parser\<close>

lemma valid_iff: "is_valid_position (Some s) =
   (\<exists>c f r. s = [c, f, r] \<and> c \<in> set VALID_COLORS \<and> f \<in> set VALID_FILES \<and> r \<in> set VALID_RANKS)"
proof (cases s)
  case Nil then show ?thesis by (simp add: is_valid_position_def)
next
  case (Cons a s1)
  show ?thesis
  proof (cases s1)
    case Nil with Cons show ?thesis by (simp add: is_valid_position_def)
  next
    case (Cons b s2)
    note c2 = this
    show ?thesis
    proof (cases s2)
      case Nil with c2 \<open>s = a # s1\<close> show ?thesis by (simp add: is_valid_position_def)
    next
      case (Cons c s3)
      with c2 \<open>s = a # s1\<close> show ?thesis by (cases s3) (auto simp add: is_valid_position_def Let_def)
    qed
  qed
qed

lemma valid_nospace: "is_valid_position (Some s) \<Longrightarrow> c \<in> set s \<Longrightarrow> \<not> isspace c"
  by (auto simp add: valid_iff VALID_COLORS_def VALID_FILES_def VALID_RANKS_def isspace_def whitespace_def)

lemma valid_length: "is_valid_position (Some s) \<Longrightarrow> length s = 3"
  by (auto simp add: valid_iff)

lemma split_from_token: "\<forall>c\<in>set w. \<not> isspace c \<Longrightarrow> split_from cur (w @ rest) = split_from (cur @ w) rest"
  by (induction w arbitrary: cur) auto

lemma split_from_spaces_nil: "\<forall>c\<in>set sp. isspace c \<Longrightarrow> split_from [] (sp @ rest) = split_from [] rest"
  by (induction sp) auto

lemma split_from_spaces: "\<forall>c\<in>set sp. isspace c \<Longrightarrow> sp \<noteq> [] \<Longrightarrow> cur \<noteq> [] \<Longrightarrow>
   split_from cur (sp @ rest) = cur # split_from [] rest"
  by (cases sp) (auto simp add: split_from_spaces_nil)

lemma split_from_trailing: "\<forall>c\<in>set sp. isspace c \<Longrightarrow> split_from cur (xs @ sp) = split_from cur xs"
proof (induction xs arbitrary: cur)
  case Nil
  then show ?case by (induction sp arbitrary: cur) auto
next
  case (Cons a xs)
  then show ?case by simp
qed

lemma py_split_dropWhile: "py_split (dropWhile isspace s) = py_split s"
  by (induction s) (auto simp add: py_split_def)

lemma rstrip_decomp: "s = rev (dropWhile P (rev s)) @ rev (takeWhile P (rev s))"
proof -
  have "rev (takeWhile P (rev s) @ dropWhile P (rev s)) = rev (rev s)"
    by (simp only: takeWhile_dropWhile_id)
  then show ?thesis by (simp only: rev_append rev_rev_ident)
qed

lemma py_split_strip: "py_split (strip s) = py_split s"
proof -
  let ?d = "dropWhile isspace s"
  have "\<forall>c\<in>set (rev (takeWhile isspace (rev ?d))). isspace c"
    by (auto dest: set_takeWhileD)
  then have "split_from [] (rev (dropWhile isspace (rev ?d)) @ rev (takeWhile isspace (rev ?d)))
     = split_from [] (rev (dropWhile isspace (rev ?d)))"
    by (rule split_from_trailing)
  moreover have "?d = rev (dropWhile isspace (rev ?d)) @ rev (takeWhile isspace (rev ?d))"
    by (rule rstrip_decomp)
  ultimately have "split_from [] ?d = split_from [] (rev (dropWhile isspace (rev ?d)))" by simp
  then show ?thesis using py_split_dropWhile[of s] by (simp add: py_split_def strip_def)
qed

lemma parse_move_char: "parse_move s None =
   (if length (py_split s) = 2 \<and> (\<forall>tok\<in>set (py_split s). is_valid_position (Some tok))
    then Some (strip s) else None)"
proof (cases "length (py_split s) = 2")
  case False
  then show ?thesis by (simp add: parse_move_def validate_and_process_move_def py_split_strip Let_def)
next
  case True
  then obtain f t where ft: "py_split s = [f, t]"
    by (cases "py_split s"; simp; cases "tl (py_split s)"; simp; cases "tl (tl (py_split s))"; auto)
  then show ?thesis by (auto simp add: parse_move_def validate_and_process_move_def py_split_strip Let_def)
qed

lemma split_two: "\<forall>c\<in>set f. \<not> isspace c \<Longrightarrow> \<forall>c\<in>set t. \<not> isspace c \<Longrightarrow> f \<noteq> [] \<Longrightarrow> t \<noteq> [] \<Longrightarrow>
   \<forall>c\<in>set sp. isspace c \<Longrightarrow> sp \<noteq> [] \<Longrightarrow> py_split (f @ sp @ t) = [f, t]"
proof -
  assume a: "\<forall>c\<in>set f. \<not> isspace c" "\<forall>c\<in>set t. \<not> isspace c" "f \<noteq> []" "t \<noteq> []" "\<forall>c\<in>set sp. isspace c" "sp \<noteq> []"
  have "split_from [] (f @ sp @ t) = split_from f (sp @ t)" using split_from_token[OF a(1), of "[]"] by simp
  also have "\<dots> = f # split_from [] t" using a by (simp add: split_from_spaces)
  also have "split_from [] t = split_from t []" using split_from_token[OF a(2), of "[]" "[]"] by simp
  finally show ?thesis using a by (simp add: py_split_def)
qed

lemma len7: "length m = 7 \<Longrightarrow> \<exists>a b c d e f g. m = [a, b, c, d, e, f, g]"
  by (auto simp add: eval_nat_numeral length_Suc_conv)

lemma wf_iff: "well_formed_move m = (\<exists>f t. is_valid_position (Some f) \<and> is_valid_position (Some t) \<and> m = f @ '' '' @ t)"
proof
  assume w: "well_formed_move m"
  then obtain a b c d e f g where m: "m = [a, b, c, d, e, f, g]"
    using len7[of m] by (auto simp add: well_formed_move_def)
  with w have "is_valid_position (Some [a, b, c])" "d = CHR '' ''" "is_valid_position (Some [e, f, g])"
    by (simp_all add: well_formed_move_def)
  with m have "is_valid_position (Some [a, b, c]) \<and> is_valid_position (Some [e, f, g]) \<and> m = [a, b, c] @ '' '' @ [e, f, g]"
    by simp
  then show "\<exists>f t. is_valid_position (Some f) \<and> is_valid_position (Some t) \<and> m = f @ '' '' @ t"
    by blast
next
  assume "\<exists>f t. is_valid_position (Some f) \<and> is_valid_position (Some t) \<and> m = f @ '' '' @ t"
  then obtain f t where "is_valid_position (Some f)" "is_valid_position (Some t)" "m = f @ '' '' @ t" by blast
  then show "well_formed_move m"
    by (auto simp add: well_formed_move_def valid_iff)
qed


lemma strip_id: "s \<noteq> [] \<Longrightarrow> \<not> isspace (hd s) \<Longrightarrow> \<not> isspace (last s) \<Longrightarrow> strip s = s"
proof -
  assume a: "s \<noteq> []" "\<not> isspace (hd s)" "\<not> isspace (last s)"
  then have 1: "dropWhile isspace s = s" by (cases s) auto
  from a have "rev s \<noteq> []" "\<not> isspace (hd (rev s))" by (simp_all add: hd_rev)
  then have "dropWhile isspace (rev s) = rev s" by (cases "rev s") auto
  with 1 show ?thesis by (simp add: strip_def)
qed

lemma wf_strip: "well_formed_move m \<Longrightarrow> strip m = m"
proof -
  assume w: "well_formed_move m"
  then obtain f t where ft: "is_valid_position (Some f)" "is_valid_position (Some t)" "m = f @ '' '' @ t"
    by (auto simp add: wf_iff)
  then obtain a b c d e g where "f = [a, b, c]" "t = [d, e, g]" by (auto simp add: valid_iff)
  with ft have "m \<noteq> []" "hd m = a" "last m = g" "a \<in> set f" "g \<in> set t" by simp_all
  with ft show ?thesis using valid_nospace by (intro strip_id) auto
qed

lemma wf_split: "is_valid_position (Some f) \<Longrightarrow> is_valid_position (Some t) \<Longrightarrow> py_split (f @ '' '' @ t) = [f, t]"
proof -
  assume v: "is_valid_position (Some f)" "is_valid_position (Some t)"
  have "py_split (f @ '' '' @ t) = [f, t]"
  proof (rule split_two)
    show "\<forall>c\<in>set f. \<not> isspace c" using v valid_nospace by blast
    show "\<forall>c\<in>set t. \<not> isspace c" using v valid_nospace by blast
    show "f \<noteq> []" "t \<noteq> []" using v by (auto simp add: is_valid_position_def)
    show "\<forall>c\<in>set '' ''. isspace c" by (simp add: isspace_def whitespace_def)
    show "'' '' \<noteq> []" by simp
  qed
  then show ?thesis .
qed

lemma wf_parse: "well_formed_move m \<Longrightarrow> parse_move m None = Some m"
proof -
  assume w: "well_formed_move m"
  then obtain f t where ft: "is_valid_position (Some f)" "is_valid_position (Some t)" "m = f @ '' '' @ t"
    by (auto simp add: wf_iff)
  then have "py_split m = [f, t]" using wf_split by simp
  with ft w show ?thesis by (simp add: parse_move_char wf_strip)
qed

lemma nospace_split: "\<forall>c\<in>set s. \<not> isspace c \<Longrightarrow> length (split_from cur s) \<le> 1"
  by (induction s arbitrary: cur) auto

text \<open>
  Claim C3. The coordinate validator returns true exactly when the token is a string
  of three characters, the first in R, B, G, the second in A, B, C, the third in
  1, 2, 3, 4. On every other string, the empty one included, and on \<^verbatim>\<open>None\<close> it
  returns false; it is a total function of its argument, so nothing is raised.
\<close>

theorem is_valid_position_grammar:
  "is_valid_position tok =
     (\<exists>c f r. tok = Some [c, f, r] \<and> c \<in> {CHR ''R'', CHR ''B'', CHR ''G''} \<and>
        f \<in> {CHR ''A'', CHR ''B'', CHR ''C''} \<and> r \<in> {CHR ''1'', CHR ''2'', CHR ''3'', CHR ''4''})"
proof (cases tok)
  case None
  then show ?thesis by (simp add: is_valid_position_def)
next
  case (Some s)
  then show ?thesis
    by (simp add: valid_iff VALID_COLORS_def VALID_FILES_def VALID_RANKS_def)
qed

text \<open>The validator on the examples of the specification.\<close>

theorem is_valid_position_grammar_witness:
  "is_valid_position (Some ''RA1'') \<and> is_valid_position (Some ''GC4'') \<and>
   \<not> is_valid_position (Some ''XA1'') \<and> \<not> is_valid_position (Some ''RA5'') \<and>
   \<not> is_valid_position (Some ''RD1'') \<and> \<not> is_valid_position (Some ''RA'') \<and>
   \<not> is_valid_position (Some ''RA11'') \<and> \<not> is_valid_position (Some []) \<and>
   \<not> is_valid_position None"
  using is_valid_position_grammar [of "Some ''RA1''"] is_valid_position_grammar [of "Some ''GC4''"]
    is_valid_position_grammar [of "Some ''XA1''"] is_valid_position_grammar [of "Some ''RA5''"]
    is_valid_position_grammar [of "Some ''RD1''"] is_valid_position_grammar [of "Some ''RA''"]
    is_valid_position_grammar [of "Some ''RA11''"] is_valid_position_grammar [of "Some []"]
    is_valid_position_grammar [of None]
  by simp

text \<open>
  Claim C2 as stated fails: two tokens with two spaces between them are not refused.
  The parser splits at any white space and returns the trimmed input.
\<close>

theorem parse_move_two_spaces_counterexample:
  "parse_move ''RA2  RA3'' None = Some ''RA2  RA3'' \<and> parse_move ''RA2  RA3'' None \<noteq> None"
  by (simp add: parse_move_def validate_and_process_move_def strip_def py_split_def isspace_def
      whitespace_def is_valid_position_def VALID_COLORS_def VALID_FILES_def VALID_RANKS_def)

text \<open>
  Claim C2, amended. When the trimmed input is two well-formed tokens with exactly one
  space between them, the parser returns the trimmed input. In general it returns the
  trimmed input when splitting at white space gives exactly two tokens and both are
  well formed, whatever white space separates them, and \<^verbatim>\<open>None\<close> otherwise; an input
  without any white space has at most one token and gives \<^verbatim>\<open>None\<close>.
\<close>

theorem parse_move_tokens:
  "(well_formed_move (strip s) \<longrightarrow> parse_move s None = Some (strip s)) \<and>
   parse_move s None =
     (if length (py_split s) = 2 \<and> (\<forall>tok \<in> set (py_split s). is_valid_position (Some tok))
      then Some (strip s) else None) \<and>
   ((\<forall>c \<in> set s. \<not> isspace c) \<longrightarrow> parse_move s None = None)"
proof (intro conjI impI)
  assume w: "well_formed_move (strip s)"
  then have "parse_move (strip s) None = Some (strip (strip s))" using wf_parse wf_strip by simp
  moreover have "parse_move (strip s) None = parse_move s None"
    using w by (simp add: parse_move_char py_split_strip wf_strip)
  ultimately show "parse_move s None = Some (strip s)" using w wf_strip by simp
next
  show "parse_move s None =
     (if length (py_split s) = 2 \<and> (\<forall>tok \<in> set (py_split s). is_valid_position (Some tok))
      then Some (strip s) else None)" by (rule parse_move_char)
next
  assume "\<forall>c \<in> set s. \<not> isspace c"
  then have "length (py_split s) \<le> 1" using nospace_split by (simp add: py_split_def)
  then show "parse_move s None = None" by (simp add: parse_move_char)
qed

text \<open>One space, no space, a malformed token.\<close>

theorem parse_move_tokens_witness:
  "well_formed_move (strip '' RA2 RA3 '') \<and> parse_move '' RA2 RA3 '' None = Some ''RA2 RA3'' \<and>
   \<not> list_ex isspace ''RA2RA3'' \<and> parse_move ''RA2RA3'' None = None \<and>
   parse_move ''RA2 RA5'' None = None"
  using parse_move_tokens [of "'' RA2 RA3 ''"] parse_move_tokens [of "''RA2RA3''"]
    parse_move_tokens [of "''RA2 RA5''"]
  by (simp add: strip_def py_split_def isspace_def whitespace_def is_valid_position_def
      VALID_COLORS_def VALID_FILES_def VALID_RANKS_def well_formed_move_def)

lemma startswith_take: "startswith l p = (take (length p) l = p)"
  by (induction l p rule: startswith.induct) auto

text \<open>
  Claim C4. For a well-formed move string and a non-empty list of legal moves (none of
  them the empty string): when the move is in the list the parser returns it; otherwise
  it returns \<^verbatim>\<open>None\<close> and prints as the closest move the first legal move with the
  same \<^verbatim>\<open>from\<close> token, or the first legal move of the list when none has it.
\<close>

theorem closest_legal_move:
  assumes "well_formed_move m" and "legal_moves \<noteq> []" and "[] \<notin> set legal_moves"
  shows "validate_and_process_move m (Some legal_moves) =
     (if m \<in> set legal_moves then (Some m, None)
      else (None, Some (case filter (\<lambda>l. from_token l = from_token m) legal_moves of
                          [] \<Rightarrow> hd legal_moves | l # _ \<Rightarrow> l)))"
proof -
  from assms(1) obtain f t where ft: "is_valid_position (Some f)" "is_valid_position (Some t)" "m = f @ '' '' @ t"
    by (auto simp add: wf_iff)
  then have sp: "py_split m = [f, t]" using wf_split by simp
  have st: "strip m = m" using assms(1) by (rule wf_strip)
  have lf: "length f = 3" using ft valid_length by simp
  then have fm: "from_token m = f" using ft by (simp add: from_token_def)
  have flt: "filter (\<lambda>move. startswith move f) legal_moves = filter (\<lambda>l. from_token l = from_token m) legal_moves"
    using lf fm by (simp add: startswith_take from_token_def)
  have mne: "m \<noteq> []" using ft by simp
  show ?thesis
  proof (cases "m \<in> set legal_moves")
    case True
    then show ?thesis using sp st ft assms(2) by (simp add: validate_and_process_move_def)
  next
    case False
    let ?cl = "filter (\<lambda>l. from_token l = from_token m) legal_moves"
    have fc: "find_closest_legal_move m (Some legal_moves) = Some (case ?cl of [] \<Rightarrow> hd legal_moves | l # _ \<Rightarrow> l)"
      using sp mne assms(2) flt by (cases ?cl) (simp_all add: find_closest_legal_move_def)
    have ne: "(case ?cl of [] \<Rightarrow> hd legal_moves | l # _ \<Rightarrow> l) \<noteq> []"
    proof (cases ?cl)
      case Nil
      then show ?thesis using assms(2,3) by (cases legal_moves) auto
    next
      case (Cons l ls)
      then have "l \<in> set ?cl" by simp
      then have "l \<in> set legal_moves" by simp
      with Cons show ?thesis using assms(3) by auto
    qed
    show ?thesis using False sp st ft assms(2) fc ne by (simp add: validate_and_process_move_def)
  qed
qed

text \<open>The example of the specification, and a move whose \<^verbatim>\<open>from\<close> token no legal move
  has.\<close>

theorem closest_legal_move_witness:
  "validate_and_process_move ''RA2 RA3'' (Some [''RA2 RA3'', ''RB1 RC3'']) = (Some ''RA2 RA3'', None) \<and>
   validate_and_process_move ''RA2 RA4'' (Some [''RA2 RA3'', ''RB1 RC3'']) = (None, Some ''RA2 RA3'') \<and>
   validate_and_process_move ''RB1 RA4'' (Some [''RA2 RA3'', ''RB1 RC3'']) = (None, Some ''RB1 RC3'') \<and>
   validate_and_process_move ''GA2 GA3'' (Some [''RA2 RA3'', ''RB1 RC3'']) = (None, Some ''RA2 RA3'')"
proof -
  have w: "well_formed_move ''RA2 RA3''" "well_formed_move ''RA2 RA4''" "well_formed_move ''RB1 RA4''"
      "well_formed_move ''GA2 GA3''"
    by (simp_all add: well_formed_move_def is_valid_position_def VALID_COLORS_def VALID_FILES_def VALID_RANKS_def)
  have l: "[''RA2 RA3'', ''RB1 RC3''] \<noteq> []" "[] \<notin> set [''RA2 RA3'', ''RB1 RC3'']" by simp_all
  show ?thesis
    using closest_legal_move [OF w(1) l] closest_legal_move [OF w(2) l]
      closest_legal_move [OF w(3) l] closest_legal_move [OF w(4) l]
    by (simp add: from_token_def)
qed

section \<open>Facts about the regular expressions\<close>

lemma seqs_Nil: "seqs [] = Eps" by (simp add: seqs_def)
lemma seqs_Cons: "seqs (r # rs) = Seq r (seqs rs)" by (simp add: seqs_def)
lemma lit_Nil: "lit [] = Eps" by (simp add: lit_def)
lemma lit_Cons: "lit (c # w) = Seq (One False [Ch c]) (lit w)" by (simp add: lit_def)

text \<open>What a match leaves is made of characters of the string.\<close>

lemma star_rests_set: "r \<in> set (star_rests p s) \<Longrightarrow> set r \<subseteq> set s"
  by (induction s) (auto split: if_splits)

lemma plus_rests_set: "r \<in> set (plus_rests p s) \<Longrightarrow> set r \<subseteq> set s"
  by (cases s) (auto split: if_splits dest: star_rests_set)

lemma rmatch_set: "(g', s') \<in> set (rmatch ic r g s) \<Longrightarrow> set s' \<subseteq> set s"
proof (induction r arbitrary: g s g' s')
  case Eps
  then show ?case by simp
next
  case (One neg items)
  then show ?case by (cases s) (auto split: if_splits)
next
  case (Star neg items)
  then show ?case by (auto dest: star_rests_set)
next
  case (Plus neg items)
  then show ?case by (auto dest: plus_rests_set)
next
  case (Seq a b)
  from Seq.prems obtain g1 s1 where 1: "(g1, s1) \<in> set (rmatch ic a g s)" and 2: "(g', s') \<in> set (rmatch ic b g1 s1)"
    by auto
  from Seq.IH(1)[OF 1] Seq.IH(2)[OF 2] show ?case by blast
next
  case (Alt a b)
  from Alt.prems have "(g', s') \<in> set (rmatch ic a g s) \<or> (g', s') \<in> set (rmatch ic b g s)"
    by simp
  then show ?case using Alt.IH by blast
next
  case (Opt a)
  from Opt.prems have "(g', s') \<in> set (rmatch ic a g s) \<or> s' = s" by auto
  then show ?case using Opt.IH by blast
next
  case (Grp n a)
  from Grp.prems obtain g1 where "(g1, s') \<in> set (rmatch ic a g s)" by auto
  then show ?case using Grp.IH by blast
qed

lemma needs_One: "(\<And>x. in_class ic neg items x \<Longrightarrow> P x) \<Longrightarrow> needs P ic (One neg items)"
  unfolding needs_def
proof (intro allI impI)
  fix g s
  assume a: "\<And>x. in_class ic neg items x \<Longrightarrow> P x" and b: "\<forall>x\<in>set s. \<not> P x"
  show "rmatch ic (One neg items) g s = []"
  proof (cases s)
    case Nil
    then show ?thesis by simp
  next
    case (Cons x xs)
    with b have "\<not> P x" by simp
    with a have "\<not> in_class ic neg items x" by blast
    with Cons show ?thesis by simp
  qed
qed

lemma needs_Seq1: "needs P ic a \<Longrightarrow> needs P ic (Seq a b)"
  by (simp add: needs_def)

lemma needs_Seq2: "needs P ic b \<Longrightarrow> needs P ic (Seq a b)"
  unfolding needs_def
proof (intro allI impI)
  fix g s
  assume nb: "\<forall>g s. (\<forall>x\<in>set s. \<not> P x) \<longrightarrow> rmatch ic b g s = []" and s: "\<forall>x\<in>set s. \<not> P x"
  have "\<And>g1 s1. (g1, s1) \<in> set (rmatch ic a g s) \<Longrightarrow> rmatch ic b g1 s1 = []"
  proof -
    fix g1 s1
    assume "(g1, s1) \<in> set (rmatch ic a g s)"
    then have "set s1 \<subseteq> set s" by (rule rmatch_set)
    with s have "\<forall>x\<in>set s1. \<not> P x" by blast
    with nb show "rmatch ic b g1 s1 = []" by blast
  qed
  then show "rmatch ic (Seq a b) g s = []" by auto
qed

lemma needs_Grp: "needs P ic a \<Longrightarrow> needs P ic (Grp n a)"
  by (simp add: needs_def)

lemma needs_Alt: "needs P ic a \<Longrightarrow> needs P ic b \<Longrightarrow> needs P ic (Alt a b)"
  by (simp add: needs_def)

lemma needs_search: "needs P ic r \<Longrightarrow> \<forall>x \<in> set s. \<not> P x \<Longrightarrow> search ic r s = None"
proof (induction s)
  case Nil
  then show ?case by (simp add: needs_def)
next
  case (Cons c cs)
  from Cons.prems have "rmatch ic r [] (c # cs) = []" unfolding needs_def by blast
  moreover from Cons have "search ic r cs = None" by simp
  ultimately show ?case by simp
qed

lemma needs_lit: "c \<in> set w \<Longrightarrow> needs (\<lambda>x. x = c) False (lit w)"
proof (induction w)
  case Nil
  then show ?case by simp
next
  case (Cons d w)
  show ?case
  proof (cases "c = d")
    case True
    have "needs (\<lambda>x. x = c) False (One False [Ch d])"
      using True by (intro needs_One) (simp add: in_class_def)
    then show ?thesis by (simp add: lit_Cons needs_Seq1)
  next
    case False
    with Cons have "needs (\<lambda>x. x = c) False (lit w)" by simp
    then show ?thesis by (simp add: lit_Cons needs_Seq2)
  qed
qed

lemma search_hit: "rmatch ic r [] s = (g, s') # rest \<Longrightarrow> search ic r s = Some g"
  by (cases s) simp_all

lemma contains_set: "contains sub s \<Longrightarrow> set sub \<subseteq> set s"
proof (induction s)
  case Nil
  then show ?case by simp
next
  case (Cons c cs)
  have sw: "\<And>t p. startswith t p \<Longrightarrow> set p \<subseteq> set t"
  proof -
    fix t p show "startswith t p \<Longrightarrow> set p \<subseteq> set t"
      by (induction t p rule: startswith.induct) auto
  qed
  from Cons show ?case using sw[of "c # cs" sub] by auto
qed

lemma not_contains: "c \<in> set sub \<Longrightarrow> c \<notin> set s \<Longrightarrow> \<not> contains sub s"
  using contains_set by blast

section \<open>Properties of the cascade\<close>

lemma in_RGB: "c \<in> set VALID_COLORS \<Longrightarrow> in_class False False RGB c"
  by (auto simp add: VALID_COLORS_def in_class_def RGB_def)

lemma in_A_C: "c \<in> set VALID_FILES \<Longrightarrow> in_class False False A_C c"
  by (auto simp add: VALID_FILES_def in_class_def A_C_def)

lemma in_D1_4: "c \<in> set VALID_RANKS \<Longrightarrow> in_class False False D1_4 c"
  by (auto simp add: VALID_RANKS_def in_class_def D1_4_def)

lemma rmatch_coord:
  "is_valid_position (Some [a, b, c]) \<Longrightarrow> rmatch False coord g (a # b # c # rest) = [(g, rest)]"
  by (simp add: valid_iff coord_def seqs_Cons seqs_Nil in_RGB in_A_C in_D1_4)

lemma rmatch_sp1_space:
  "\<not> isspace d \<Longrightarrow> rmatch False sp1 g (CHR '' '' # d # rest) = [(g, d # rest)]"
  by (simp add: sp1_def in_class_def isspace_def whitespace_def)

lemma pattern4_hit:
  assumes "is_valid_position (Some [a, b, c])" and "is_valid_position (Some [d, e, f])"
  shows "rmatch False (seqs [Grp 1 coord, sp1, Grp 2 coord]) [] ([a, b, c] @ '' '' @ [d, e, f])
           = [([(2, [d, e, f]), (1, [a, b, c])], [])]"
proof -
  have "\<not> isspace d" using assms(2) valid_nospace[of "[d, e, f]" d] by simp
  then show ?thesis
    using assms by (simp add: seqs_Cons seqs_Nil rmatch_coord rmatch_sp1_space)
qed

lemma needs_arrow: "needs P ic arrow"
  unfolding arrow_def by (rule needs_One) (simp add: in_class_def)

lemma needs_seqs: "r \<in> set rs \<Longrightarrow> needs P ic r \<Longrightarrow> needs P ic (seqs rs)"
proof (induction rs)
  case Nil
  then show ?case by simp
next
  case (Cons a rs)
  then show ?case by (auto simp add: seqs_Cons intro: needs_Seq1 needs_Seq2)
qed

lemma sentinel_needs: "needs (\<lambda>x. x = CHR ''<'') False sentinel_pattern"
  unfolding sentinel_pattern_def
  by (rule needs_seqs[where r = "lit ''<<MOVE>>''"]) (simp_all add: needs_lit)

lemma sentinel_none: "CHR ''<'' \<notin> set s \<Longrightarrow> search False sentinel_pattern s = None"
  by (rule needs_search[OF sentinel_needs]) auto

lemma content_pattern1_none:
  "CHR ''t'' \<notin> set s \<Longrightarrow> search False (seqs [Grp 1 coord, sp1, lit ''to'', sp1, Grp 2 coord]) s = None"
proof -
  assume a: "CHR ''t'' \<notin> set s"
  have "needs (\<lambda>x. x = CHR ''t'') False (seqs [Grp 1 coord, sp1, lit ''to'', sp1, Grp 2 coord])"
    by (rule needs_seqs[where r = "lit ''to''"]) (simp_all add: needs_lit)
  then show ?thesis using a by (intro needs_search) auto
qed

lemma content_pattern2_none:
  "CHR ''-'' \<notin> set s \<Longrightarrow> search False (seqs [Grp 1 coord, sp0, lit ''-'', sp0, Grp 2 coord]) s = None"
proof -
  assume a: "CHR ''-'' \<notin> set s"
  have "needs (\<lambda>x. x = CHR ''-'') False (seqs [Grp 1 coord, sp0, lit ''-'', sp0, Grp 2 coord])"
    by (rule needs_seqs[where r = "lit ''-''"]) (simp_all add: needs_lit)
  then show ?thesis using a by (intro needs_search) auto
qed

lemma content_pattern3_none:
  "search False (seqs [Grp 1 coord, sp0, arrow, sp0, Grp 2 coord]) s = None"
proof -
  have "needs (\<lambda>x. False) False (seqs [Grp 1 coord, sp0, arrow, sp0, Grp 2 coord])"
    by (rule needs_seqs[where r = arrow]) (simp_all add: needs_arrow)
  then show ?thesis by (intro needs_search) auto
qed

lemma valid_chars:
  "is_valid_position (Some s) \<Longrightarrow> set s \<subseteq> set ''RBGAC1234''"
  by (auto simp add: valid_iff VALID_COLORS_def VALID_FILES_def VALID_RANKS_def)

lemma wf_chars: "well_formed_move m \<Longrightarrow> set m \<subseteq> set ''RBGAC1234 ''"
proof -
  assume "well_formed_move m"
  then obtain f t where ft: "is_valid_position (Some f)" "is_valid_position (Some t)" "m = f @ '' '' @ t"
    by (auto simp add: wf_iff)
  have 1: "set f \<subseteq> set ''RBGAC1234''" using ft(1) by (rule valid_chars)
  have 2: "set t \<subseteq> set ''RBGAC1234''" using ft(2) by (rule valid_chars)
  have 3: "set ''RBGAC1234'' \<subseteq> set ''RBGAC1234 ''" by (simp add: subset_insertI2)
  have 4: "set '' '' \<subseteq> set ''RBGAC1234 ''" by simp
  have 5: "set m = set f \<union> (set '' '' \<union> set t)" using ft(3) by (simp only: set_append)
  show ?thesis unfolding 5 using 1 2 3 4 by blast
qed

lemma content_loop_wf:
  assumes "well_formed_move m"
  shows "two_group_loop False content_move_patterns m = Some m"
proof -
  from assms obtain f t where ft: "is_valid_position (Some f)" "is_valid_position (Some t)" "m = f @ '' '' @ t"
    by (auto simp add: wf_iff)
  then obtain a b c d e g where abc: "f = [a, b, c]" "t = [d, e, g]" by (auto simp add: valid_iff)
  have "CHR ''t'' \<notin> set ''RBGAC1234 ''" "CHR ''-'' \<notin> set ''RBGAC1234 ''" by simp_all
  then have ch: "CHR ''t'' \<notin> set m" "CHR ''-'' \<notin> set m" using wf_chars[OF assms] by blast+
  have p4: "search False (seqs [Grp 1 coord, sp1, Grp 2 coord]) m = Some [(2, t), (1, f)]"
    using pattern4_hit[of a b c d e g] ft abc by (intro search_hit) auto
  have p1: "search False (seqs [Grp 1 coord, sp1, lit ''to'', sp1, Grp 2 coord]) m = None"
    using ch by (intro content_pattern1_none)
  have p2: "search False (seqs [Grp 1 coord, sp0, lit ''-'', sp0, Grp 2 coord]) m = None"
    using ch by (intro content_pattern2_none)
  have p3: "search False (seqs [Grp 1 coord, sp0, arrow, sp0, Grp 2 coord]) m = None"
    by (rule content_pattern3_none)
  have g: "group [(2, t), (1, f)] 1 = f" "group [(2, t), (1, f)] 2 = t"
    by (simp_all add: group_def)
  have "two_group_loop False content_move_patterns m = Some (f @ '' '' @ t)"
    by (simp only: content_move_patterns_def two_group_loop.simps p1 p2 p3 p4 option.case g)
  then show ?thesis using ft by simp
qed

lemmas lower_eval = lower_def lower_char_def upper_letters_def lower_letters_def

lemma lower_char_range: "lower_char c = c \<or> lower_char c \<in> set lower_letters"
proof (cases "map_of (zip upper_letters lower_letters) c")
  case None
  then show ?thesis by (simp add: lower_char_def)
next
  case (Some l)
  then have "(c, l) \<in> set (zip upper_letters lower_letters)" by (rule map_of_SomeD)
  then have "l \<in> set lower_letters" by (rule set_zip_rightD)
  with Some show ?thesis by (simp add: lower_char_def)
qed

lemma lower_char_eq_colon: "lower_char c = CHR '':'' \<Longrightarrow> c = CHR '':''"
  using lower_char_range[of c] by (auto simp add: lower_letters_def)

lemma lower_no_colon: "CHR '':'' \<notin> set s \<Longrightarrow> CHR '':'' \<notin> set (lower s)"
proof
  assume a: "CHR '':'' \<notin> set s" and "CHR '':'' \<in> set (lower s)"
  then obtain c where c: "c \<in> set s" "lower_char c = CHR '':''" by (auto simp add: lower_def)
  from c(2) have "c = CHR '':''" by (rule lower_char_eq_colon)
  with c(1) a show False by simp
qed

lemmas no_colon = not_contains[of "CHR '':''"]

lemma reasoning_markers_none:
  "CHR '':'' \<notin> set lc \<Longrightarrow>
   reasoning_marker_loop [''reasoning:'', ''analysis:'', ''thinking:'', ''i think:''] lc = None"
  by (simp add: no_colon)

lemma move_markers_none:
  "CHR '':'' \<notin> set lc \<Longrightarrow>
   move_marker_loop [''move:'', ''my move:'', ''i choose:'', ''final move:'', ''i play:''] lc = None"
  by (simp add: no_colon)

lemma wf_no_special:
  assumes "well_formed_move m"
  shows "CHR '':'' \<notin> set m" and "CHR ''<'' \<notin> set m" and "CHR '' '' \<in> set m" and "m \<noteq> []"
proof -
  have "CHR '':'' \<notin> set ''RBGAC1234 ''" "CHR ''<'' \<notin> set ''RBGAC1234 ''" by simp_all
  then show "CHR '':'' \<notin> set m" "CHR ''<'' \<notin> set m" using wf_chars[OF assms] by blast+
  from assms obtain f t where "m = f @ '' '' @ t" by (auto simp add: wf_iff)
  then show "CHR '' '' \<in> set m" "m \<noteq> []" by simp_all
qed

lemma content_stage_wf:
  assumes "well_formed_move m"
  shows "snd (content_stage reasoning_text m) = Some m"
proof -
  note n = wf_no_special[OF assms]
  have s: "strip m = m" using assms by (rule wf_strip)
  have sn: "search False sentinel_pattern m = None" using n(2) by (rule sentinel_none)
  have mm: "move_marker_loop [''move:'', ''my move:'', ''i choose:'', ''final move:'', ''i play:'']
              (lower m) = None"
    using n(1) by (intro move_markers_none lower_no_colon)
  have cl: "two_group_loop False content_move_patterns m = Some m" using assms by (rule content_loop_wf)
  show ?thesis
    unfolding content_stage_def Let_def s sn mm
    using n(4) by (simp add: cl truthy_def)
qed

lemma unwrap_plain: "CHR ''<'' \<notin> set s \<Longrightarrow> unwrap_sentinel s = s"
  by (simp add: unwrap_sentinel_def not_contains[of "CHR ''<''"])

lemma reformat_spaced: "CHR '' '' \<in> set s \<Longrightarrow> reformat_move s = s"
  by (simp add: reformat_move_def)

lemma postprocess_wf:
  assumes "well_formed_move m"
  shows "reformat_move (unwrap_sentinel (last_resort current_color (Some m))) = m"
  using wf_no_special[OF assms] by (simp add: last_resort_def unwrap_plain reformat_spaced)

lemma validated_wf: "well_formed_move m \<Longrightarrow> validated_or_fallback current_color m = m"
  using wf_no_special(4)[of m] by (simp add: validated_or_fallback_def wf_parse)

lemma extract_move_content_wf:
  assumes "well_formed_move m" and "tool_calls msg = []" and "content msg = Some m"
  shows "\<exists>rt. extract_move current_color msg = Inr (rt, m)"
proof -
  obtain rt fm where cs: "content_stage ''No explicit reasoning provided'' m = (rt, fm)"
    by (cases "content_stage ''No explicit reasoning provided'' m") auto
  then have fm: "fm = Some m" using content_stage_wf[OF assms(1), of "''No explicit reasoning provided''"] by simp
  have ne: "m \<noteq> []" using wf_no_special(4)[OF assms(1)] .
  have "cascade_stages msg = Inr (rt, Some m)"
    using assms(2,3) cs fm ne by (simp add: cascade_stages_def truthy_def)
  then have "extract_move current_color msg = Inr (rt, m)"
    using postprocess_wf[OF assms(1), of current_color] by (simp add: extract_move_def Let_def)
  then show ?thesis by blast
qed

lemma get_llm_move_fst:
  "choices r = msg # rest \<Longrightarrow> usage_readable (Inr r) \<Longrightarrow>
   extract_move current_color msg = Inr (rt, fm) \<Longrightarrow>
   fst (get_llm_move mem clk current_color (Inr r)) = validated_or_fallback current_color fm"
  by (auto simp add: get_llm_move_def usage_readable_def Let_def split: option.splits)

lemma completion_readable: "usage_readable (Inr (completion msg))"
  by (simp add: usage_readable_def completion_def reasoning_tokens_def)



text \<open>The repair step on any string.\<close>

lemma reformat_six:
  "(CHR '' '' \<notin> set s \<and> length s = 6 \<longrightarrow>
      reformat_move s = take 3 s @ '' '' @ drop 3 s \<and> length (reformat_move s) = 7 \<and>
      reformat_move s ! 3 = CHR '' '') \<and>
   (CHR '' '' \<notin> set s \<and> length s \<noteq> 6 \<longrightarrow> reformat_move s = s) \<and>
   (CHR '' '' \<in> set s \<longrightarrow> reformat_move s = s)"
proof (intro conjI impI)
  assume a: "CHR '' '' \<notin> set s \<and> length s = 6"
  then have ne: "s \<noteq> []" by auto
  with a show r: "reformat_move s = take 3 s @ '' '' @ drop 3 s" by (simp add: reformat_move_def)
  from a have l: "length (take 3 s) = 3" by simp
  from a show "length (reformat_move s) = 7" unfolding r by simp
  show "reformat_move s ! 3 = CHR '' ''" unfolding r using l by (simp add: nth_append)
next
  assume "CHR '' '' \<notin> set s \<and> length s \<noteq> 6"
  then show "reformat_move s = s" by (simp add: reformat_move_def)
next
  assume "CHR '' '' \<in> set s"
  then show "reformat_move s = s" by (simp add: reformat_move_def)
qed

lemma valid_no_blank: "is_valid_position (Some f) \<Longrightarrow> CHR '' '' \<notin> set f"
proof -
  assume "is_valid_position (Some f)"
  then have "set f \<subseteq> set ''RBGAC1234''" by (rule valid_chars)
  moreover have "CHR '' '' \<notin> set ''RBGAC1234''" by simp
  ultimately show ?thesis by blast
qed

lemma wf_concat:
  assumes "is_valid_position (Some f)" and "is_valid_position (Some t)"
  shows "reformat_move (f @ t) = f @ '' '' @ t"
proof -
  have "CHR '' '' \<notin> set f" "CHR '' '' \<notin> set t"
    using assms by (simp_all add: valid_no_blank)
  moreover have "length f = 3" "length t = 3" using assms by (simp_all add: valid_length)
  moreover from this have "f \<noteq> []" by auto
  ultimately show ?thesis by (simp add: reformat_move_def)
qed

lemma rmatch_lit: "rmatch False (lit w) g (w @ s) = [(g, s)]"
  by (induction w) (simp_all add: lit_Nil lit_Cons in_class_def)

lemma star_rests_head:
  "\<forall>c\<in>set xs. p c \<Longrightarrow> \<not> p y \<Longrightarrow> \<exists>rest. star_rests p (xs @ y # ys) = (y # ys) # rest"
  by (induction xs) auto

lemma plus_rests_head:
  "xs \<noteq> [] \<Longrightarrow> \<forall>c\<in>set xs. p c \<Longrightarrow> \<not> p y \<Longrightarrow> \<exists>rest. plus_rests p (xs @ y # ys) = (y # ys) # rest"
  using star_rests_head[of "tl xs" p y ys] by (cases xs) auto

lemma startswith_prefix: "startswith (p @ s) p"
  by (induction p) auto

lemma contains_prefix: "contains p (p @ s)"
  using startswith_prefix[of p s] by (cases "p @ s") auto

lemma contains_append: "contains sub s \<Longrightarrow> contains sub (p @ s)"
  by (induction p) auto

lemma sentinel_wrapped:
  assumes "m \<noteq> []" and "CHR ''<'' \<notin> set m"
  shows "search False sentinel_pattern (''<<MOVE>>'' @ m @ ''<<END_MOVE>>'') = Some [(1, m)]"
proof -
  let ?p = "in_class False True [Ch CHR ''<'']"
  let ?e = "''<END_MOVE>>''"
  have a: "\<forall>c\<in>set m. ?p c" using assms(2) by (auto simp add: in_class_def)
  have b: "\<not> ?p CHR ''<''" by (simp add: in_class_def)
  obtain rest where pr: "plus_rests ?p (m @ CHR ''<'' # ?e) = (CHR ''<'' # ?e) # rest"
    using plus_rests_head[OF assms(1) a b] by blast
  have g: "rmatch False (Grp 1 (Plus True [Ch CHR ''<''])) [] (m @ CHR ''<'' # ?e)
             = ([(1, m)], CHR ''<'' # ?e)
               # map (\<lambda>(g', s'). ((1, take (length (m @ CHR ''<'' # ?e) - length s') (m @ CHR ''<'' # ?e)) # g', s'))
                   (map (\<lambda>r. ([], r)) rest)"
    by (simp add: pr)
  have l: "rmatch False (Seq (lit ''<<END_MOVE>>'') Eps) [(1, m)] (CHR ''<'' # ?e) = [([(1, m)], [])]"
    using rmatch_lit[of "''<<END_MOVE>>''" "[(1, m)]" "[]"] by simp
  have "\<exists>more. rmatch False (seqs [Grp 1 (Plus True [Ch CHR ''<'']), lit ''<<END_MOVE>>'']) []
           (m @ CHR ''<'' # ?e) = ([(1, m)], []) # more"
    unfolding seqs_Cons seqs_Nil rmatch.simps(5)[of False "Grp 1 (Plus True [Ch CHR ''<''])"] g
    using l by simp
  then obtain more where s: "rmatch False (seqs [Grp 1 (Plus True [Ch CHR ''<'']), lit ''<<END_MOVE>>'']) []
           (m @ CHR ''<'' # ?e) = ([(1, m)], []) # more" by blast
  have "rmatch False sentinel_pattern [] (''<<MOVE>>'' @ m @ ''<<END_MOVE>>'') = ([(1, m)], []) # more"
    unfolding sentinel_pattern_def seqs_Cons[of "lit ''<<MOVE>>''"] rmatch.simps(5)[of False "lit ''<<MOVE>>''"]
    using rmatch_lit[of "''<<MOVE>>''" "[]" "m @ ''<<END_MOVE>>''"] s by simp
  then show ?thesis by (rule search_hit)
qed

lemma unwrap_wrapped:
  assumes "m \<noteq> []" and "CHR ''<'' \<notin> set m"
  shows "unwrap_sentinel (''<<MOVE>>'' @ m @ ''<<END_MOVE>>'') = strip m"
proof -
  have 1: "contains ''<<MOVE>>'' (''<<MOVE>>'' @ m @ ''<<END_MOVE>>'')" by (rule contains_prefix)
  have "contains ''<<END_MOVE>>'' (''<<END_MOVE>>'' @ [])" by (rule contains_prefix)
  then have "contains ''<<END_MOVE>>'' ((''<<MOVE>>'' @ m) @ ''<<END_MOVE>>'')"
    by (intro contains_append) simp
  then have 2: "contains ''<<END_MOVE>>'' (''<<MOVE>>'' @ m @ ''<<END_MOVE>>'')" by simp
  show ?thesis
    unfolding unwrap_sentinel_def using 1 2 sentinel_wrapped[OF assms]
    by (simp only: if_True simp_thms option.case group_def map_of.simps fst_conv snd_conv)
      simp
qed

lemma decisions_Cons:
  "decisions (tc # calls) =
     (case move_argument tc of None \<Rightarrow> decisions calls | Some m \<Rightarrow> m # decisions calls)"
  by (simp add: decisions_def map_filter_simps split: option.splits)

lemma tool_calls_loop_ok:
  "list_all arguments_ok calls \<Longrightarrow>
   \<exists>rt'. tool_calls_loop calls (rt, fm) =
     Inr (rt', case decisions calls of [] \<Rightarrow> fm
               | d # ds \<Rightarrow> Some (''<<MOVE>>'' @ last (d # ds) @ ''<<END_MOVE>>''))"
proof (induction calls arbitrary: rt fm)
  case Nil
  then show ?case by (simp add: decisions_def)
next
  case (Cons tc calls)
  then have ok: "arguments_ok tc" and oks: "list_all arguments_ok calls" by simp_all
  show ?case
  proof (cases "arguments tc")
    case BadJson
    with ok show ?thesis by (simp add: arguments_ok_def)
  next
    case NotObject
    with ok have n: "function_name tc \<noteq> ''think''" "function_name tc \<noteq> ''decide_move''"
      by (simp_all add: arguments_ok_def)
    then have "move_argument tc = None" by (simp add: move_argument_def)
    then show ?thesis using NotObject n Cons.IH[OF oks, of rt fm] by (simp add: decisions_Cons)
  next
    case (Object args)
    show ?thesis
    proof (cases "function_name tc = ''decide_move''")
      case False
      then have "move_argument tc = None" by (simp add: move_argument_def)
      then show ?thesis
        using Object False
          Cons.IH[OF oks, of "if function_name tc = ''think''
             then (case args ''analysis'' of Some a \<Rightarrow> a | None \<Rightarrow> ''No reasoning provided'')
             else rt" fm]
        by (simp add: decisions_Cons)
    next
      case True
      let ?m = "case args ''move'' of Some m \<Rightarrow> m | None \<Rightarrow> []"
      have ma: "move_argument tc = Some ?m"
        using True Object by (simp add: move_argument_def split: option.splits)
      obtain rt' where ih: "tool_calls_loop calls (rt, Some (''<<MOVE>>'' @ ?m @ ''<<END_MOVE>>'')) =
          Inr (rt', case decisions calls of [] \<Rightarrow> Some (''<<MOVE>>'' @ ?m @ ''<<END_MOVE>>'')
               | d # ds \<Rightarrow> Some (''<<MOVE>>'' @ last (d # ds) @ ''<<END_MOVE>>''))"
        using Cons.IH[OF oks, of rt "Some (''<<MOVE>>'' @ ?m @ ''<<END_MOVE>>'')"] by blast
      have "tool_calls_loop (tc # calls) (rt, fm) =
          tool_calls_loop calls (rt, Some (''<<MOVE>>'' @ ?m @ ''<<END_MOVE>>''))"
        using True Object by simp
      with ih show ?thesis
        by (cases "decisions calls") (simp_all add: decisions_Cons ma)
    qed
  qed
qed

lemma extract_move_decided:
  assumes "list_all arguments_ok (tool_calls msg)" and "decisions (tool_calls msg) \<noteq> []"
    and "m = last (decisions (tool_calls msg))" and "m \<noteq> []" and "CHR ''<'' \<notin> set m"
  shows "\<exists>rt. extract_move current_color msg = Inr (rt, reformat_move (strip m))"
proof -
  obtain d ds where dd: "decisions (tool_calls msg) = d # ds" using assms(2) by (cases "decisions (tool_calls msg)") auto
  obtain rt where tl: "tool_calls_loop (tool_calls msg) (''No explicit reasoning provided'', None)
      = Inr (rt, Some (''<<MOVE>>'' @ m @ ''<<END_MOVE>>''))"
    using tool_calls_loop_ok[OF assms(1), of "''No explicit reasoning provided''" None] dd assms(3) by auto
  have "cascade_stages msg = Inr (rt, Some (''<<MOVE>>'' @ m @ ''<<END_MOVE>>''))"
    unfolding cascade_stages_def tl by (simp add: truthy_def)
  then have "extract_move current_color msg = Inr (rt, reformat_move (strip m))"
    using unwrap_wrapped[OF assms(4,5)] by (simp add: extract_move_def last_resort_def)
  then show ?thesis by blast
qed

lemma cascade_stages_decided:
  assumes "list_all arguments_ok (tool_calls msg)" and "decisions (tool_calls msg) \<noteq> []"
    and "m = last (decisions (tool_calls msg))"
  shows "\<exists>rt. cascade_stages msg = Inr (rt, Some (''<<MOVE>>'' @ m @ ''<<END_MOVE>>''))"
proof -
  obtain d ds where dd: "decisions (tool_calls msg) = d # ds"
    using assms(2) by (cases "decisions (tool_calls msg)") auto
  obtain rt where tl: "tool_calls_loop (tool_calls msg) (''No explicit reasoning provided'', None)
      = Inr (rt, Some (''<<MOVE>>'' @ m @ ''<<END_MOVE>>''))"
    using tool_calls_loop_ok[OF assms(1), of "''No explicit reasoning provided''" None] dd assms(3)
    by auto
  have "cascade_stages msg = Inr (rt, Some (''<<MOVE>>'' @ m @ ''<<END_MOVE>>''))"
    unfolding cascade_stages_def tl by (simp add: truthy_def)
  then show ?thesis by blast
qed


lemmas eval_valid = well_formed_move_def is_valid_position_def VALID_COLORS_def VALID_FILES_def
  VALID_RANKS_def

lemmas eval_calls = decisions_def map_filter_simps move_argument_def arguments_ok_def
  decide_call_def think_call_def




lemma lower_char_digit:
  assumes "d \<in> set ''1234''" and "lower_char x = lower_char d"
  shows "x = d"
proof -
  from assms(1) have c: "d = CHR ''1'' \<or> d = CHR ''2'' \<or> d = CHR ''3'' \<or> d = CHR ''4''" by simp
  from c have ld: "lower_char d = d" by (elim disjE) (simp_all add: lower_eval)
  from c have nl: "d \<notin> set lower_letters" by (elim disjE) (simp_all add: lower_letters_def)
  from lower_char_range[of x] assms(2) ld nl show ?thesis by auto
qed

lemma digit_class:
  assumes "list_all (\<lambda>it. it \<in> set D1_4) items" and "in_class ic False items x"
  shows "x \<in> set ''1234''"
proof -
  from assms(2) obtain it where it: "it \<in> set items" "item_match ic it x"
    by (auto simp add: in_class_def list_ex_iff)
  with assms(1) have "it \<in> set D1_4" by (auto simp add: list_all_iff)
  then obtain d where d: "it = Ch d" "d \<in> set ''1234''" by (auto simp add: D1_4_def)
  show ?thesis
  proof (cases ic)
    case True
    with it d have "lower_char x = lower_char d" by simp
    with d(2) have "x = d" by (rule lower_char_digit)
    with d show ?thesis by simp
  next
    case False
    with it d show ?thesis by simp
  qed
qed

lemma needs_Plus: "(\<And>x. in_class ic neg items x \<Longrightarrow> P x) \<Longrightarrow> needs P ic (Plus neg items)"
  unfolding needs_def
proof (intro allI impI)
  fix g s
  assume a: "\<And>x. in_class ic neg items x \<Longrightarrow> P x" and b: "\<forall>x\<in>set s. \<not> P x"
  show "rmatch ic (Plus neg items) g s = []"
  proof (cases s)
    case Nil
    then show ?thesis by simp
  next
    case (Cons x xs)
    with b have "\<not> P x" by simp
    with a have "\<not> in_class ic neg items x" by blast
    with Cons show ?thesis by simp
  qed
qed

lemma must_digit_needs: "must_digit r \<Longrightarrow> needs (\<lambda>x. x \<in> set ''1234'') ic r"
proof (induction r)
  case (One neg items)
  then show ?case by (intro needs_One) (auto dest: digit_class)
next
  case (Plus neg items)
  then show ?case by (intro needs_Plus) (auto dest: digit_class)
next
  case (Seq a b)
  then show ?case by (auto intro: needs_Seq1 needs_Seq2)
next
  case (Alt a b)
  then show ?case by (auto intro: needs_Alt)
next
  case (Grp n a)
  then show ?case by (auto intro: needs_Grp)
qed simp_all

lemmas eval_patterns = seqs_def lit_def alts.simps coord_def square_def sp1_def sp0_def word1_def
  arrow_def on_at_from_def to_moves_to_def color_then_square_def D1_4_def

lemma must_digit_lists:
  "list_all must_digit content_move_patterns"
  "list_all must_digit reasoning_move_patterns"
  "list_all must_digit piece_patterns"
  "list_all must_digit color_position_patterns"
  by (simp_all add: content_move_patterns_def reasoning_move_patterns_def piece_patterns_def
      color_position_patterns_def eval_patterns eval_nat_numeral)

lemma two_group_loop_none:
  "list_all must_digit ps \<Longrightarrow> \<forall>x\<in>set s. x \<notin> set ''1234'' \<Longrightarrow> two_group_loop ic ps s = None"
proof (induction ps)
  case Nil
  then show ?case by simp
next
  case (Cons p ps)
  then have "search ic p s = None"
    using needs_search[OF must_digit_needs, of p s ic] by simp
  with Cons show ?case by simp
qed

lemma four_group_loop_none:
  "list_all must_digit ps \<Longrightarrow> \<forall>x\<in>set s. x \<notin> set ''1234'' \<Longrightarrow> four_group_loop ic ps s = None"
proof (induction ps)
  case Nil
  then show ?case by simp
next
  case (Cons p ps)
  then have "search ic p s = None"
    using needs_search[OF must_digit_needs, of p s ic] by simp
  with Cons show ?case by simp
qed

lemma reasoning_pattern_loop_none:
  "list_all must_digit ps \<Longrightarrow> \<forall>x\<in>set s. x \<notin> set ''1234'' \<Longrightarrow> reasoning_pattern_loop ps s = None"
proof (induction ps)
  case Nil
  then show ?case by simp
next
  case (Cons p ps)
  then have "search True p s = None"
    using needs_search[OF must_digit_needs, of p s True] by simp
  with Cons show ?case by simp
qed

lemma findall_coord_none: "\<forall>x\<in>set s. x \<notin> set ''1234'' \<Longrightarrow> findall_coord s = []"
proof (induction s rule: findall_coord.induct)
  case (1 a b c rest)
  have "must_digit coord" by (simp add: eval_patterns)
  then have "needs (\<lambda>x. x \<in> set ''1234'') False coord" by (rule must_digit_needs)
  moreover have "\<forall>x\<in>set [a, b, c]. \<not> x \<in> set ''1234''" using "1.prems" by simp
  ultimately have m: "rmatch False coord [] [a, b, c] = []" unfolding needs_def by blast
  have "\<forall>x\<in>set (b # c # rest). x \<notin> set ''1234''" using "1.prems" by simp
  then have "findall_coord (b # c # rest) = []" using "1.IH"(2) m by simp
  with m show ?case by simp
qed simp_all

lemma search_reasoning_none: "\<forall>x\<in>set s. x \<notin> set ''1234'' \<Longrightarrow> search_reasoning s = None"
  by (simp add: search_reasoning_def reasoning_pattern_loop_none two_group_loop_none
      four_group_loop_none findall_coord_none must_digit_lists truthy_def)

lemma strip_set: "set (strip s) \<subseteq> set s"
proof -
  have "set (dropWhile isspace (rev (dropWhile isspace s))) \<subseteq> set (rev (dropWhile isspace s))"
    by (auto dest: set_dropWhileD)
  moreover have "set (dropWhile isspace s) \<subseteq> set s" by (auto dest: set_dropWhileD)
  ultimately show ?thesis by (auto simp add: strip_def)
qed

lemma lower_digit_free:
  "\<forall>x\<in>set s. x \<notin> set ''1234'' \<Longrightarrow> \<forall>x\<in>set (lower s). x \<notin> set ''1234''"
proof
  fix x
  assume a: "\<forall>x\<in>set s. x \<notin> set ''1234''" and "x \<in> set (lower s)"
  then obtain c where c: "c \<in> set s" "x = lower_char c" by (auto simp add: lower_def)
  show "x \<notin> set ''1234''"
  proof
    assume d: "x \<in> set ''1234''"
    then have "lower_char x = x"
    proof -
      from d have "x = CHR ''1'' \<or> x = CHR ''2'' \<or> x = CHR ''3'' \<or> x = CHR ''4''" by simp
      then show ?thesis by (elim disjE) (simp_all add: lower_eval)
    qed
    with c(2) have "lower_char c = lower_char x" by simp
    with d have "c = x" by (rule lower_char_digit)
    with c(1) a d show False by blast
  qed
qed

text \<open>Content without a colon, a less-than sign or a digit from 1 to 4 goes to the parser
  as it is, trimmed.\<close>

lemma content_stage_plain:
  assumes "CHR '':'' \<notin> set c" and "CHR ''<'' \<notin> set c" and "\<forall>x\<in>set c. x \<notin> set ''1234''"
  shows "content_stage reasoning_text c = (reasoning_text, Some (strip c))"
proof -
  have sub: "set (strip c) \<subseteq> set c" by (rule strip_set)
  have 1: "CHR '':'' \<notin> set (strip c)" "CHR ''<'' \<notin> set (strip c)"
    "\<forall>x\<in>set (strip c). x \<notin> set ''1234''"
    using assms sub by blast+
  have sn: "search False sentinel_pattern (strip c) = None" using 1(2) by (rule sentinel_none)
  have rm: "reasoning_marker_loop [''reasoning:'', ''analysis:'', ''thinking:'', ''i think:'']
              (lower (strip c)) = None"
    using 1(1) by (intro reasoning_markers_none lower_no_colon)
  have mm: "move_marker_loop [''move:'', ''my move:'', ''i choose:'', ''final move:'', ''i play:'']
              (lower (strip c)) = None"
    using 1(1) by (intro move_markers_none lower_no_colon)
  have cl: "two_group_loop False content_move_patterns (strip c) = None"
    using must_digit_lists(1) 1(3) by (rule two_group_loop_none)
  show ?thesis
    unfolding content_stage_def Let_def sn rm mm cl by (simp add: truthy_def)
qed

lemma default_reasoning_digit_free: "\<forall>x\<in>set ''No explicit reasoning provided''. x \<notin> set ''1234''"
  by simp

lemma cascade_stages_silent:
  "cascade_stages \<lparr>tool_calls = [], content = None\<rparr> = Inr (''No explicit reasoning provided'', None)"
  using search_reasoning_none[OF default_reasoning_digit_free]
  by (simp add: cascade_stages_def truthy_def)

lemma fallback_wf: "well_formed_move (fallback_move current_color)"
  by (simp add: fallback_move_def eval_valid)

lemma fallback_candidate:
  "reformat_move (unwrap_sentinel (fallback_move current_color)) = fallback_move current_color"
  using wf_no_special[OF fallback_wf, of current_color] by (simp add: unwrap_plain reformat_spaced)

lemma last_resort_falsy: "\<not> truthy fm \<Longrightarrow> last_resort current_color fm = fallback_move current_color"
  by (cases fm) (simp_all add: last_resort_def truthy_def)

lemma get_llm_move_candidate:
  "fst (get_llm_move mem clk current_color response) =
     (case candidate current_color response of
        None \<Rightarrow> fallback_move current_color
      | Some c \<Rightarrow>
          if usage_readable response then validated_or_fallback current_color c
          else fallback_move current_color)"
  by (simp add: get_llm_move_def candidate_def usage_readable_def Let_def
      split: sum.splits list.splits prod.splits option.splits)

lemma exhausted_candidate:
  "exhausted response \<Longrightarrow> candidate current_color response = Some (fallback_move current_color)"
  by (auto simp add: exhausted_def candidate_def extract_move_def last_resort_falsy fallback_candidate
      split: sum.splits list.splits prod.splits option.splits)

lemma strip_strip: "strip (strip s) = strip s"
proof (cases "strip s = []")
  case True
  have "strip [] = []" by (simp add: strip_def)
  with True show ?thesis by simp
next
  case False
  let ?d = "dropWhile isspace s"
  let ?e = "dropWhile isspace (rev ?d)"
  have e: "strip s = rev ?e" by (simp add: strip_def)
  with False have ene: "?e \<noteq> []" by simp
  then have "\<not> isspace (hd ?e)" by (rule hd_dropWhile)
  then have l: "\<not> isspace (last (strip s))" using ene by (simp add: e last_rev)
  have dne: "?d \<noteq> []"
  proof
    assume d: "?d = []"
    have "?e = []" unfolding d by simp
    with ene show False by simp
  qed
  then have hd: "\<not> isspace (hd ?d)" by (rule hd_dropWhile)
  have "rev ?d = takeWhile isspace (rev ?d) @ ?e" by simp
  then have "last (rev ?d) = last ?e" using ene by (metis last_appendR)
  then have "last ?e = hd ?d" using dne by (simp add: last_rev)
  then have h: "\<not> isspace (hd (strip s))" using hd ene by (simp add: e hd_rev)
  from False h l show ?thesis by (rule strip_id)
qed

lemma parse_move_fixed:
  assumes "parse_move c None = Some m"
  shows "parse_move m None = Some m" and "m \<noteq> []"
proof -
  from assms have c: "length (py_split c) = 2" "\<forall>tok\<in>set (py_split c). is_valid_position (Some tok)"
    "m = strip c"
    by (auto simp add: parse_move_char split: if_splits)
  then show "parse_move m None = Some m" by (simp add: parse_move_char py_split_strip strip_strip)
  from c have "py_split m \<noteq> []" by (auto simp add: py_split_strip)
  then show "m \<noteq> []" by (auto simp add: py_split_def)
qed

lemma validated_or_fallback_parses:
  "parse_move (validated_or_fallback current_color c) None = Some (validated_or_fallback current_color c)
   \<and> validated_or_fallback current_color c \<noteq> []"
proof (cases "parse_move c None")
  case None
  then show ?thesis
    using wf_parse[OF fallback_wf, of current_color] wf_no_special(4)[OF fallback_wf, of current_color]
    by (simp add: validated_or_fallback_def)
next
  case (Some m)
  then show ?thesis
    using parse_move_fixed[OF Some] by (simp add: validated_or_fallback_def)
qed

text \<open>
  Claim C1. For every response (an exception before the response included) and every
  colour, the move \<^verbatim>\<open>get_llm_move\<close> returns is not empty and is a move string the parser
  accepts. It is the fixed move of the colour when an exception ended the extraction,
  when the candidate the cascade recovered fails the parser, and when no stage before
  the fixed fallback recovered a move. When the candidate passes the parser, the result
  is the candidate as the parser returns it if the token usage can be read, and the
  fixed move of the colour if it cannot. No error leaves the function.
\<close>

theorem cascade_always_a_move:
  "fst (get_llm_move mem clk current_color response) \<noteq> [] \<and>
   parse_move (fst (get_llm_move mem clk current_color response)) None
     = Some (fst (get_llm_move mem clk current_color response)) \<and>
   fst (get_llm_move mem clk current_color response) =
     (case candidate current_color response of
        None \<Rightarrow> fallback_move current_color
      | Some c \<Rightarrow> (case parse_move c None of
                    None \<Rightarrow> fallback_move current_color
                  | Some m \<Rightarrow> if usage_readable response then m
                             else fallback_move current_color)) \<and>
   (exhausted response \<longrightarrow>
      fst (get_llm_move mem clk current_color response) = fallback_move current_color) \<and>
   fallback_move ''BLUE'' = ''BA2 BA3'' \<and> fallback_move ''RED'' = ''RA2 RA3'' \<and>
   fallback_move ''GREEN'' = ''GA2 GA3''"
proof (intro conjI impI)
  let ?r = "fst (get_llm_move mem clk current_color response)"
  note f = wf_parse[OF fallback_wf, of current_color] wf_no_special(4)[OF fallback_wf, of current_color]
  show ne: "?r \<noteq> []" and p: "parse_move ?r None = Some ?r"
  proof -
    have "?r \<noteq> [] \<and> parse_move ?r None = Some ?r"
    proof (cases "candidate current_color response")
      case None
      then show ?thesis using f by (simp add: get_llm_move_candidate)
    next
      case (Some c)
      then show ?thesis
        using validated_or_fallback_parses[of current_color c] f
        by (simp add: get_llm_move_candidate)
    qed
    then show "?r \<noteq> []" and "parse_move ?r None = Some ?r" by simp_all
  qed
  show "?r = (case candidate current_color response of
        None \<Rightarrow> fallback_move current_color
      | Some c \<Rightarrow> (case parse_move c None of
                    None \<Rightarrow> fallback_move current_color
                  | Some m \<Rightarrow> if usage_readable response then m
                             else fallback_move current_color))"
  proof (cases "candidate current_color response")
    case None
    then show ?thesis by (simp add: get_llm_move_candidate)
  next
    case (Some c)
    show ?thesis
    proof (cases "parse_move c None")
      case None
      with Some show ?thesis by (simp add: get_llm_move_candidate validated_or_fallback_def)
    next
      case (Some m)
      then have "m \<noteq> []" by (rule parse_move_fixed(2))
      with Some \<open>candidate current_color response = Some c\<close> show ?thesis
        by (simp add: get_llm_move_candidate validated_or_fallback_def)
    qed
  qed
next
  assume "exhausted response"
  then have "candidate current_color response = Some (fallback_move current_color)"
    by (rule exhausted_candidate)
  then show "fst (get_llm_move mem clk current_color response) = fallback_move current_color"
    using validated_wf[OF fallback_wf, of current_color current_color]
    by (simp add: get_llm_move_candidate)
qed (simp_all add: fallback_move_def)

lemma candidate_decided:
  assumes "m \<noteq> []" and "CHR ''<'' \<notin> set m"
  shows "candidate current_color (Inr (completion \<lparr>tool_calls = [decide_call m], content = None\<rparr>))
           = Some (reformat_move (strip m))"
proof -
  let ?msg = "\<lparr>tool_calls = [decide_call m], content = None\<rparr>"
  have d: "decisions [decide_call m] = [m]" by (simp add: eval_calls)
  have 2: "list_all arguments_ok (tool_calls ?msg)" by (simp add: eval_calls)
  obtain rt where "extract_move current_color ?msg = Inr (rt, reformat_move (strip m))"
    using extract_move_decided[OF 2 _ _ assms, of current_color] by (auto simp add: d)
  then show ?thesis by (simp add: candidate_def completion_def)
qed

lemma candidate_plain:
  assumes "CHR '':'' \<notin> set c" and "CHR ''<'' \<notin> set c" and "\<forall>x\<in>set c. x \<notin> set ''1234''"
    and "strip c \<noteq> []"
  shows "candidate current_color (Inr (completion \<lparr>tool_calls = [], content = Some c\<rparr>))
           = Some (reformat_move (strip c))"
proof -
  have cn: "c \<noteq> []" using assms(4) by (auto simp add: strip_def)
  have "CHR ''<'' \<notin> set (strip c)" using assms(2) strip_set[of c] by blast
  then have u: "unwrap_sentinel (strip c) = strip c" by (rule unwrap_plain)
  show ?thesis
    using cn assms(4)
    by (simp add: candidate_def completion_def extract_move_def cascade_stages_def truthy_def
        content_stage_plain[OF assms(1,2,3)] last_resort_def u)
qed

lemma exhausted_silent: "exhausted (Inr (completion \<lparr>tool_calls = [], content = None\<rparr>))"
  by (simp add: exhausted_def completion_def cascade_stages_silent truthy_def)

lemma candidate_content_wf:
  assumes "well_formed_move m"
  shows "candidate current_color (Inr (completion \<lparr>tool_calls = [], content = Some m\<rparr>)) = Some m"
    and "candidate current_color
           (Inr (completion_reporting details \<lparr>tool_calls = [], content = Some m\<rparr>)) = Some m"
proof -
  obtain rt where e: "extract_move current_color \<lparr>tool_calls = [], content = Some m\<rparr> = Inr (rt, m)"
    using extract_move_content_wf[OF assms, of "\<lparr>tool_calls = [], content = Some m\<rparr>" current_color]
    by auto
  show "candidate current_color (Inr (completion \<lparr>tool_calls = [], content = Some m\<rparr>)) = Some m"
    using e by (simp add: candidate_def completion_def)
  show "candidate current_color
           (Inr (completion_reporting details \<lparr>tool_calls = [], content = Some m\<rparr>)) = Some m"
    using e by (simp add: candidate_def completion_reporting_def)
qed

lemma reporting_readable:
  "usage_readable (Inr (completion_reporting (ReasoningTokens v) msg)) = (v \<noteq> None)"
  by (simp add: usage_readable_def completion_reporting_def reasoning_tokens_def)

lemmas eval_strip = strip_def isspace_def whitespace_def

lemmas eval_parse = parse_move_def validate_and_process_move_def py_split_def eval_strip
  is_valid_position_def VALID_COLORS_def VALID_FILES_def VALID_RANKS_def

text \<open>
  A response without tool invocations and without content, content without
  coordinates, a failed provider call, and a well-formed move as the content with and
  without readable reasoning tokens.
\<close>

theorem cascade_always_a_move_witness:
  "exhausted (Inr (completion \<lparr>tool_calls = [], content = None\<rparr>)) \<and>
   fst (get_llm_move AGENT_MEMORY noon ''RED''
          (Inr (completion \<lparr>tool_calls = [], content = None\<rparr>))) = ''RA2 RA3'' \<and>
   fst (get_llm_move AGENT_MEMORY noon ''BLUE''
          (Inr (completion \<lparr>tool_calls = [], content = Some ''I resign''\<rparr>))) = ''BA2 BA3'' \<and>
   fst (get_llm_move AGENT_MEMORY noon ''GREEN'' (Inl ProviderError)) = ''GA2 GA3'' \<and>
   fst (get_llm_move AGENT_MEMORY noon ''GREEN''
          (Inr (completion \<lparr>tool_calls = [], content = Some ''GB1 GC3''\<rparr>))) = ''GB1 GC3'' \<and>
   fst (get_llm_move AGENT_MEMORY noon ''GREEN''
          (Inr (completion_reporting (ReasoningTokens None)
                  \<lparr>tool_calls = [], content = Some ''GB1 GC3''\<rparr>))) = ''GA2 GA3''"
proof -
  let ?knight = "\<lparr>tool_calls = [], content = Some ''GB1 GC3''\<rparr>"
  have c: "candidate ''BLUE'' (Inr (completion \<lparr>tool_calls = [], content = Some ''I resign''\<rparr>))
             = Some ''I resign''"
    using candidate_plain[of "''I resign''" "''BLUE''"] by (simp add: eval_strip reformat_move_def)
  have p: "parse_move ''I resign'' None = None" by (simp add: eval_parse)
  have e: "candidate ''GREEN'' (Inl ProviderError) = None" by (simp add: candidate_def)
  have w: "well_formed_move ''GB1 GC3''" by (simp add: eval_valid)
  have pk: "parse_move ''GB1 GC3'' None = Some ''GB1 GC3''" using w by (rule wf_parse)
  have ck: "candidate ''GREEN'' (Inr (completion ?knight)) = Some ''GB1 GC3''"
    using w by (rule candidate_content_wf(1))
  have cn: "candidate ''GREEN'' (Inr (completion_reporting (ReasoningTokens None) ?knight))
              = Some ''GB1 GC3''"
    using w by (rule candidate_content_wf(2))
  have rk: "usage_readable (Inr (completion ?knight))" by (rule completion_readable)
  have rn: "\<not> usage_readable (Inr (completion_reporting (ReasoningTokens None) ?knight))"
    by (simp add: reporting_readable)
  have 1: "fst (get_llm_move AGENT_MEMORY noon ''RED''
          (Inr (completion \<lparr>tool_calls = [], content = None\<rparr>))) = fallback_move ''RED''"
    using exhausted_silent
      cascade_always_a_move [of AGENT_MEMORY noon "''RED''"
        "Inr (completion \<lparr>tool_calls = [], content = None\<rparr>)"]
    by blast
  have "fst (get_llm_move AGENT_MEMORY noon ''BLUE''
          (Inr (completion \<lparr>tool_calls = [], content = Some ''I resign''\<rparr>))) =
        (case candidate ''BLUE'' (Inr (completion \<lparr>tool_calls = [], content = Some ''I resign''\<rparr>)) of
           None \<Rightarrow> fallback_move ''BLUE''
         | Some c \<Rightarrow> (case parse_move c None of None \<Rightarrow> fallback_move ''BLUE''
             | Some m \<Rightarrow>
                 if usage_readable (Inr (completion \<lparr>tool_calls = [], content = Some ''I resign''\<rparr>))
                 then m else fallback_move ''BLUE''))"
    using cascade_always_a_move [of AGENT_MEMORY noon "''BLUE''"
        "Inr (completion \<lparr>tool_calls = [], content = Some ''I resign''\<rparr>)"]
    by blast
  then have 2: "fst (get_llm_move AGENT_MEMORY noon ''BLUE''
          (Inr (completion \<lparr>tool_calls = [], content = Some ''I resign''\<rparr>))) = fallback_move ''BLUE''"
    by (simp only: c p option.case)
  have "fst (get_llm_move AGENT_MEMORY noon ''GREEN'' (Inl ProviderError)) =
        (case candidate ''GREEN'' (Inl ProviderError) of
           None \<Rightarrow> fallback_move ''GREEN''
         | Some c \<Rightarrow> (case parse_move c None of None \<Rightarrow> fallback_move ''GREEN''
             | Some m \<Rightarrow> if usage_readable (Inl ProviderError) then m else fallback_move ''GREEN''))"
    using cascade_always_a_move [of AGENT_MEMORY noon "''GREEN''" "Inl ProviderError"] by blast
  then have 3: "fst (get_llm_move AGENT_MEMORY noon ''GREEN'' (Inl ProviderError)) = fallback_move ''GREEN''"
    by (simp only: e option.case)
  have "fst (get_llm_move AGENT_MEMORY noon ''GREEN'' (Inr (completion ?knight))) =
        (case candidate ''GREEN'' (Inr (completion ?knight)) of
           None \<Rightarrow> fallback_move ''GREEN''
         | Some c \<Rightarrow> (case parse_move c None of None \<Rightarrow> fallback_move ''GREEN''
             | Some m \<Rightarrow> if usage_readable (Inr (completion ?knight)) then m
                        else fallback_move ''GREEN''))"
    using cascade_always_a_move [of AGENT_MEMORY noon "''GREEN''" "Inr (completion ?knight)"]
    by blast
  then have 4: "fst (get_llm_move AGENT_MEMORY noon ''GREEN'' (Inr (completion ?knight))) = ''GB1 GC3''"
    using rk by (simp only: ck pk option.case if_True)
  have "fst (get_llm_move AGENT_MEMORY noon ''GREEN''
               (Inr (completion_reporting (ReasoningTokens None) ?knight))) =
        (case candidate ''GREEN'' (Inr (completion_reporting (ReasoningTokens None) ?knight)) of
           None \<Rightarrow> fallback_move ''GREEN''
         | Some c \<Rightarrow> (case parse_move c None of None \<Rightarrow> fallback_move ''GREEN''
             | Some m \<Rightarrow>
                 if usage_readable (Inr (completion_reporting (ReasoningTokens None) ?knight))
                 then m else fallback_move ''GREEN''))"
    using cascade_always_a_move [of AGENT_MEMORY noon "''GREEN''"
        "Inr (completion_reporting (ReasoningTokens None) ?knight)"]
    by blast
  then have 5: "fst (get_llm_move AGENT_MEMORY noon ''GREEN''
               (Inr (completion_reporting (ReasoningTokens None) ?knight))) = fallback_move ''GREEN''"
    using rn by (simp only: cn pk option.case if_False)
  show ?thesis
    using exhausted_silent 1 2 3 4 5 by (simp add: fallback_move_def)
qed

text \<open>
  Claim C6. Whatever the stages of the cascade give for the first message of a response:
  when the result, after the sentinel markers are taken off, has no space and exactly
  six characters, the candidate that goes to the validation is the result with a space
  after its third character; a result without a space of any other length, and a result
  with a space, go to the validation as they are. The candidate is what
  \<^verbatim>\<open>extract_move\<close> hands on, and the move returned is what the validation makes of it.
\<close>

theorem repair_before_validation:
  assumes "choices r = msg # rest" and "usage r = Some u"
    and "cascade_stages msg = Inr (reasoning_text, final_move)"
    and "res = unwrap_sentinel (last_resort current_color final_move)"
  shows "(CHR '' '' \<notin> set res \<and> length res = 6 \<longrightarrow>
            candidate current_color (Inr r) = Some (take 3 res @ '' '' @ drop 3 res)) \<and>
         (CHR '' '' \<notin> set res \<and> length res \<noteq> 6 \<longrightarrow>
            candidate current_color (Inr r) = Some res) \<and>
         (CHR '' '' \<in> set res \<longrightarrow> candidate current_color (Inr r) = Some res) \<and>
         (\<exists>c. candidate current_color (Inr r) = Some c \<and>
              extract_move current_color msg = Inr (reasoning_text, c) \<and>
              (usage_readable (Inr r) \<longrightarrow>
                 fst (get_llm_move mem clk current_color (Inr r))
                   = validated_or_fallback current_color c))"
proof -
  have e: "extract_move current_color msg = Inr (reasoning_text, reformat_move res)"
    using assms(3,4) by (simp add: extract_move_def)
  then have c: "candidate current_color (Inr r) = Some (reformat_move res)"
    using assms(1,2) by (simp add: candidate_def)
  have g: "usage_readable (Inr r) \<longrightarrow>
      fst (get_llm_move mem clk current_color (Inr r))
        = validated_or_fallback current_color (reformat_move res)"
    using get_llm_move_fst[OF assms(1) _ e] by blast
  have 1: "CHR '' '' \<notin> set res \<and> length res = 6 \<longrightarrow>
            candidate current_color (Inr r) = Some (take 3 res @ '' '' @ drop 3 res)"
    using reformat_six[of res] c by simp
  have 2: "CHR '' '' \<notin> set res \<and> length res \<noteq> 6 \<longrightarrow>
            candidate current_color (Inr r) = Some res"
    using reformat_six[of res] c by simp
  have 3: "CHR '' '' \<in> set res \<longrightarrow> candidate current_color (Inr r) = Some res"
    using reformat_six[of res] c by simp
  from 1 2 3 c e g show ?thesis by blast
qed

text \<open>
  The example of the specification as the move argument of a \<^verbatim>\<open>decide_move\<close>
  invocation, and arguments of five and seven characters and one with a space.
\<close>

theorem repair_before_validation_witness:
  "candidate ''GREEN'' (Inr (completion \<lparr>tool_calls = [decide_call ''RB1RC3''], content = None\<rparr>))
     = Some ''RB1 RC3'' \<and>
   fst (get_llm_move AGENT_MEMORY noon ''GREEN''
          (Inr (completion \<lparr>tool_calls = [decide_call ''RB1RC3''], content = None\<rparr>)))
     = ''RB1 RC3'' \<and>
   candidate ''GREEN'' (Inr (completion \<lparr>tool_calls = [decide_call ''RB1RC''], content = None\<rparr>))
     = Some ''RB1RC'' \<and>
   candidate ''GREEN'' (Inr (completion \<lparr>tool_calls = [decide_call ''RB1RC3x''], content = None\<rparr>))
     = Some ''RB1RC3x'' \<and>
   candidate ''GREEN'' (Inr (completion \<lparr>tool_calls = [decide_call ''RB1 RC''], content = None\<rparr>))
     = Some ''RB1 RC''"
proof -
  have w: "validated_or_fallback ''GREEN'' ''RB1 RC3'' = ''RB1 RC3''"
    by (rule validated_wf) (simp add: eval_valid)
  have st: "strip ''RB1RC3'' = ''RB1RC3''" "strip ''RB1RC'' = ''RB1RC''"
    "strip ''RB1RC3x'' = ''RB1RC3x''" "strip ''RB1 RC'' = ''RB1 RC''"
    by (simp_all add: eval_strip)
  have stages: "\<exists>rt. cascade_stages \<lparr>tool_calls = [decide_call m], content = None\<rparr>
      = Inr (rt, Some (''<<MOVE>>'' @ m @ ''<<END_MOVE>>''))" for m
    by (rule cascade_stages_decided) (simp_all add: eval_calls)
  have res: "m \<noteq> [] \<Longrightarrow> CHR ''<'' \<notin> set m \<Longrightarrow>
      strip m = unwrap_sentinel (last_resort ''GREEN'' (Some (''<<MOVE>>'' @ m @ ''<<END_MOVE>>'')))" for m
    using unwrap_wrapped[of m] by (simp add: last_resort_def)
  have ch: "choices (completion \<lparr>tool_calls = [decide_call m], content = None\<rparr>)
      = \<lparr>tool_calls = [decide_call m], content = None\<rparr> # []" for m
    by (simp add: completion_def)
  have us: "usage (completion msg) = Some \<lparr>prompt_tokens = 900, completion_tokens = 40,
      total_tokens = 940, completion_tokens_details = None\<rparr>" for msg
    by (simp add: completion_def)
  obtain rt6 where s6: "cascade_stages \<lparr>tool_calls = [decide_call ''RB1RC3''], content = None\<rparr>
      = Inr (rt6, Some (''<<MOVE>>'' @ ''RB1RC3'' @ ''<<END_MOVE>>''))" using stages by blast
  obtain rt5 where s5: "cascade_stages \<lparr>tool_calls = [decide_call ''RB1RC''], content = None\<rparr>
      = Inr (rt5, Some (''<<MOVE>>'' @ ''RB1RC'' @ ''<<END_MOVE>>''))" using stages by blast
  obtain rt7 where s7: "cascade_stages \<lparr>tool_calls = [decide_call ''RB1RC3x''], content = None\<rparr>
      = Inr (rt7, Some (''<<MOVE>>'' @ ''RB1RC3x'' @ ''<<END_MOVE>>''))" using stages by blast
  obtain rts where ss: "cascade_stages \<lparr>tool_calls = [decide_call ''RB1 RC''], content = None\<rparr>
      = Inr (rts, Some (''<<MOVE>>'' @ ''RB1 RC'' @ ''<<END_MOVE>>''))" using stages by blast
  note t6 = repair_before_validation [OF ch us s6 res, of AGENT_MEMORY noon]
  note t5 = repair_before_validation [OF ch us s5 res, of AGENT_MEMORY noon]
  note t7 = repair_before_validation [OF ch us s7 res, of AGENT_MEMORY noon]
  note ts = repair_before_validation [OF ch us ss res, of AGENT_MEMORY noon]
  have 1: "candidate ''GREEN''
      (Inr (completion \<lparr>tool_calls = [decide_call ''RB1RC3''], content = None\<rparr>)) = Some ''RB1 RC3''"
    using t6 by (simp add: st)
  have "fst (get_llm_move AGENT_MEMORY noon ''GREEN''
          (Inr (completion \<lparr>tool_calls = [decide_call ''RB1RC3''], content = None\<rparr>)))
        = validated_or_fallback ''GREEN'' ''RB1 RC3''"
    using t6 1 completion_readable by (simp add: st)
  then have 2: "fst (get_llm_move AGENT_MEMORY noon ''GREEN''
          (Inr (completion \<lparr>tool_calls = [decide_call ''RB1RC3''], content = None\<rparr>))) = ''RB1 RC3''"
    by (simp only: w)
  have 3: "candidate ''GREEN''
      (Inr (completion \<lparr>tool_calls = [decide_call ''RB1RC''], content = None\<rparr>)) = Some ''RB1RC''"
    using t5 by (simp add: st)
  have 4: "candidate ''GREEN''
      (Inr (completion \<lparr>tool_calls = [decide_call ''RB1RC3x''], content = None\<rparr>)) = Some ''RB1RC3x''"
    using t7 by (simp add: st)
  have 5: "candidate ''GREEN''
      (Inr (completion \<lparr>tool_calls = [decide_call ''RB1 RC''], content = None\<rparr>)) = Some ''RB1 RC''"
    using ts by (simp add: st)
  from 1 2 3 4 5 show ?thesis by simp
qed







lemma get_move_memory:
  "snd (get_move mem clk current_color response) = snd (get_llm_move mem clk current_color response)"
  by (simp add: get_move_def Let_def split: prod.splits)

lemma get_llm_move_keeps_valid:
  "list_all valid (moves mem) \<Longrightarrow>
   list_all valid (moves (snd (get_llm_move mem clk current_color response)))"
  by (simp add: get_llm_move_def Let_def split: sum.splits list.splits prod.splits option.splits)

lemma get_llm_move_records:
  "candidate current_color response = Some c \<Longrightarrow> usage_readable response \<Longrightarrow>
   map move (moves (snd (get_llm_move mem clk current_color response)))
     = map move (moves mem) @ [validated_or_fallback current_color c]"
  by (auto simp add: get_llm_move_def candidate_def usage_readable_def Let_def
      split: sum.splits list.splits prod.splits option.splits)

lemma reachable_valid: "reachable mem \<Longrightarrow> list_all valid (moves mem)"
proof (induction rule: reachable.induct)
  case initial
  show ?case by (simp add: AGENT_MEMORY_def)
next
  case (request mem clk current_color response)
  then show ?case by (simp add: get_move_memory get_llm_move_keeps_valid)
qed

text \<open>
  Claim C9. In every state of the memory that move requests can reach, each recorded
  move carries \<^verbatim>\<open>valid = True\<close>: the record is appended with it and nothing writes to it
  again. So the statistics count every recorded move as valid and none as invalid, and
  the percentage is 100 as soon as one move is recorded.
\<close>

theorem recorded_moves_always_valid:
  assumes "reachable mem"
  shows "list_all valid (moves mem) \<and>
         valid_moves (agent_memory_move_validity mem) = int (length (moves mem)) \<and>
         invalid_moves (agent_memory_move_validity mem) = 0 \<and>
         (moves mem \<noteq> [] \<longrightarrow> validity_percentage (agent_memory_move_validity mem) = 100)"
proof -
  have v: "list_all valid (moves mem)" using assms by (rule reachable_valid)
  then have f: "filter valid (moves mem) = moves mem" by (simp add: list_all_iff)
  have 1: "valid_moves (agent_memory_move_validity mem) = int (length (moves mem))"
    by (simp add: agent_memory_move_validity_def f Let_def)
  have 2: "invalid_moves (agent_memory_move_validity mem) = 0"
    by (simp add: agent_memory_move_validity_def f Let_def)
  have 3: "moves mem \<noteq> [] \<longrightarrow> validity_percentage (agent_memory_move_validity mem) = 100"
  proof
    assume "moves mem \<noteq> []"
    then have n: "1 \<le> int (length (moves mem))" by (cases "moves mem") simp_all
    then have "max 1 (int (length (moves mem))) = int (length (moves mem))" by (rule max_absorb2)
    then show "validity_percentage (agent_memory_move_validity mem) = 100"
      using n \<open>moves mem \<noteq> []\<close> by (simp add: agent_memory_move_validity_def f Let_def)
  qed
  from v 1 2 3 show ?thesis by simp
qed

text \<open>
  A request whose candidate fails the validation: the fallback move is recorded, and
  counted as valid.
\<close>

theorem recorded_moves_always_valid_witness:
  "map move (moves (snd (get_move AGENT_MEMORY noon ''RED''
      (Inr (completion \<lparr>tool_calls = [], content = Some ''I resign''\<rparr>))))) = [''RA2 RA3''] \<and>
   valid_moves (agent_memory_move_validity (snd (get_move AGENT_MEMORY noon ''RED''
      (Inr (completion \<lparr>tool_calls = [], content = Some ''I resign''\<rparr>))))) = 1 \<and>
   invalid_moves (agent_memory_move_validity (snd (get_move AGENT_MEMORY noon ''RED''
      (Inr (completion \<lparr>tool_calls = [], content = Some ''I resign''\<rparr>))))) = 0 \<and>
   validity_percentage (agent_memory_move_validity (snd (get_move AGENT_MEMORY noon ''RED''
      (Inr (completion \<lparr>tool_calls = [], content = Some ''I resign''\<rparr>))))) = 100"
proof -
  let ?resp = "Inr (completion \<lparr>tool_calls = [], content = Some ''I resign''\<rparr>)"
  let ?mem = "snd (get_move AGENT_MEMORY noon ''RED'' ?resp)"
  have r: "reachable ?mem" by (rule reachable.request) (rule reachable.initial)
  have c: "candidate ''RED'' ?resp = Some ''I resign''"
    using candidate_plain[of "''I resign''" "''RED''"] by (simp add: eval_strip reformat_move_def)
  have p: "parse_move ''I resign'' None = None" by (simp add: eval_parse)
  have m: "map move (moves ?mem) = [''RA2 RA3'']"
    using get_llm_move_records[OF c completion_readable, of AGENT_MEMORY noon]
    by (simp add: get_move_memory validated_or_fallback_def p fallback_move_def AGENT_MEMORY_def)
  then have "length (map move (moves ?mem)) = 1" by simp
  then have l: "length (moves ?mem) = 1" by simp
  then have ne: "moves ?mem \<noteq> []" by auto
  from recorded_moves_always_valid [OF r] l ne m show ?thesis by simp
qed

lemma strip_Nil: "strip [] = []"
  by (simp add: strip_def)

lemma call_body_no_key:
  "strip (get_api_key environ provider) = [] \<Longrightarrow>
   call_body environ client messages provider model system_message max_tokens additional_params
     = (Inl (ValueError (''No API key found for '' @ provider)), [])"
  by (simp add: call_body_def Let_def)

lemma send_requests: "snd (send client req) = [req]"
  by (simp add: send_def split: sum.splits list.splits)

lemma send_failure: "client req = Inl e \<Longrightarrow> fst (send client req) = Inl (ClientError e)"
  by (simp add: send_def)

lemma call_body_requests:
  "snd (call_body environ client messages provider model system_message max_tokens additional_params) = []
   \<or> (\<exists>req. call_body environ client messages provider model system_message max_tokens additional_params
              = send client req)"
  by (auto simp add: call_body_def Let_def split: sum.splits)

lemma wrapped_fst:
  "fst (one_function_to_call_them_all environ client messages provider model system_message
          max_tokens additional_params) =
     (case fst (call_body environ client messages provider model system_message max_tokens
                  additional_params) of
        Inl e \<Rightarrow> Inl (''Error calling '' @ provider @ '' LLM: '' @ str_of e)
      | Inr t \<Rightarrow> Inr t)"
  by (simp add: one_function_to_call_them_all_def split: prod.splits sum.splits)

lemma wrapped_snd:
  "snd (one_function_to_call_them_all environ client messages provider model system_message
          max_tokens additional_params) =
   snd (call_body environ client messages provider model system_message max_tokens
          additional_params)"
  by (simp add: one_function_to_call_them_all_def split: prod.splits sum.splits)

text \<open>
  Claim C8. For every provider name: when the environment variable of the provider's
  API key is not set, or is empty or white space, the function raises an error whose
  message names the provider and no request has gone to a client. Every error the
  function raises is wrapped in a message that starts with the provider's name in
  \<^verbatim>\<open>Error calling ... LLM:\<close>; a failure of the provider call is raised again with the
  client's message after that prefix. At most one request is made.
\<close>

theorem missing_key_fails_before_call:
  "((case environ (upper provider @ code_points ''_API_KEY'') of
       None \<Rightarrow> True | Some v \<Rightarrow> strip v = []) \<longrightarrow>
      one_function_to_call_them_all environ client messages provider model system_message
        max_tokens additional_params
      = (Inl (''Error calling '' @ provider @ '' LLM: No API key found for '' @ provider), [])) \<and>
   (\<forall>msg. fst (one_function_to_call_them_all environ client messages provider model
               system_message max_tokens additional_params) = Inl msg \<longrightarrow>
      (\<exists>e. msg = ''Error calling '' @ provider @ '' LLM: '' @ e)) \<and>
   (\<forall>req e. snd (one_function_to_call_them_all environ client messages provider model
                 system_message max_tokens additional_params) = [req] \<and> client req = Inl e \<longrightarrow>
      fst (one_function_to_call_them_all environ client messages provider model
             system_message max_tokens additional_params)
      = Inl (''Error calling '' @ provider @ '' LLM: '' @ e)) \<and>
   length (snd (one_function_to_call_them_all environ client messages provider model
                  system_message max_tokens additional_params)) \<le> 1"
proof (intro conjI impI allI)
  assume "case environ (upper provider @ code_points ''_API_KEY'') of
       None \<Rightarrow> True | Some v \<Rightarrow> strip v = []"
  then have "strip (get_api_key environ provider) = []"
    by (simp add: get_api_key_def strip_Nil split: option.splits)
  then show "one_function_to_call_them_all environ client messages provider model system_message
        max_tokens additional_params
      = (Inl (''Error calling '' @ provider @ '' LLM: No API key found for '' @ provider), [])"
    by (simp add: one_function_to_call_them_all_def call_body_no_key)
next
  fix msg
  assume "fst (one_function_to_call_them_all environ client messages provider model
               system_message max_tokens additional_params) = Inl msg"
  then show "\<exists>e. msg = ''Error calling '' @ provider @ '' LLM: '' @ e"
    by (auto simp add: wrapped_fst split: sum.splits)
next
  fix req e
  assume a: "snd (one_function_to_call_them_all environ client messages provider model
                 system_message max_tokens additional_params) = [req] \<and> client req = Inl e"
  let ?b = "call_body environ client messages provider model system_message max_tokens
              additional_params"
  from a have s: "snd ?b = [req]" by (simp add: wrapped_snd)
  then have "snd ?b \<noteq> []" by simp
  then obtain req' where r: "?b = send client req'" using call_body_requests[of environ client messages provider model system_message max_tokens additional_params] by auto
  with s have "req' = req" by (simp add: send_requests)
  with r a have "fst ?b = Inl (ClientError e)" by (simp add: send_failure)
  then show "fst (one_function_to_call_them_all environ client messages provider model
             system_message max_tokens additional_params)
      = Inl (''Error calling '' @ provider @ '' LLM: '' @ e)"
    by (simp add: wrapped_fst)
next
  let ?b = "call_body environ client messages provider model system_message max_tokens
              additional_params"
  have "length (snd ?b) \<le> 1"
    using call_body_requests[of environ client messages provider model system_message max_tokens additional_params]
    by (auto simp add: send_requests)
  then show "length (snd (one_function_to_call_them_all environ client messages provider model
                  system_message max_tokens additional_params)) \<le> 1"
    by (simp add: wrapped_snd)
qed

lemmas eval_upper = upper_def upper_char_def code_points_def upper_letters_def lower_letters_def

text \<open>
  A variable that is not set, one of three spaces, and a client that refuses the
  connection.
\<close>

theorem missing_key_fails_before_call_witness:
  "one_function_to_call_them_all Map.empty (\<lambda>req. Inr [''pong'']) [] ''openai'' None None None
       (None :: unit option)
     = (Inl ''Error calling openai LLM: No API key found for openai'', []) \<and>
   one_function_to_call_them_all (Map.empty(code_points ''ANTHROPIC_API_KEY'' \<mapsto> ''   ''))
       (\<lambda>req. Inr [''pong'']) [] ''anthropic'' None None None (None :: unit option)
     = (Inl ''Error calling anthropic LLM: No API key found for anthropic'', []) \<and>
   one_function_to_call_them_all (Map.empty(code_points ''GROQ_API_KEY'' \<mapsto> ''gsk''))
       (\<lambda>req. Inl ''connection refused'') [] ''groq'' None None None (None :: unit option)
     = (Inl ''Error calling groq LLM: connection refused'',
        [OpenAIChat ''gsk'' (Some ''https://api.groq.com/openai/v1'') ''llama-3.3-70b-versatile''
           [] None None])"
proof -
  have 1: "one_function_to_call_them_all Map.empty (\<lambda>req. Inr [''pong'']) [] ''openai'' None None None
       (None :: unit option)
     = (Inl ''Error calling openai LLM: No API key found for openai'', [])"
    using missing_key_fails_before_call [of Map.empty "''openai''" "\<lambda>req. Inr [''pong'']" "[]" None None
        None "None :: unit option"]
    by simp
  have 2: "one_function_to_call_them_all (Map.empty(code_points ''ANTHROPIC_API_KEY'' \<mapsto> ''   ''))
       (\<lambda>req. Inr [''pong'']) [] ''anthropic'' None None None (None :: unit option)
     = (Inl ''Error calling anthropic LLM: No API key found for anthropic'', [])"
    using missing_key_fails_before_call [of "Map.empty(code_points ''ANTHROPIC_API_KEY'' \<mapsto> ''   '')"
        "''anthropic''" "\<lambda>req. Inr [''pong'']" "[]" None None None "None :: unit option"]
    by (simp add: eval_upper eval_strip)
  let ?env = "Map.empty(code_points ''GROQ_API_KEY'' \<mapsto> ''gsk'')"
  let ?client = "\<lambda>req :: unit request. (Inl ''connection refused'' :: string + string list)"
  let ?req = "OpenAIChat ''gsk'' (Some ''https://api.groq.com/openai/v1'') ''llama-3.3-70b-versatile''
           [] None (None :: unit option)"
  have k: "get_api_key ?env ''groq'' = ''gsk''" by (simp add: get_api_key_def eval_upper)
  have sk: "strip ''gsk'' = ''gsk''" by (simp add: eval_strip)
  have s: "snd (one_function_to_call_them_all ?env ?client [] ''groq'' None None None None) = [?req]"
    by (simp add: wrapped_snd call_body_def k sk subscript_def DEFAULT_MODELS_def BASE_URLS_def
        send_def)
  have "fst (one_function_to_call_them_all ?env ?client [] ''groq'' None None None None)
          = Inl (''Error calling '' @ ''groq'' @ '' LLM: '' @ ''connection refused'')"
    using missing_key_fails_before_call [of ?env "''groq''" ?client "[]" None None None
        "None :: unit option"] s by blast
  with s have 3: "one_function_to_call_them_all ?env ?client [] ''groq'' None None None None
     = (Inl ''Error calling groq LLM: connection refused'', [?req])"
    by (simp add: prod_eq_iff)
  from 1 2 3 show ?thesis by simp
qed


end
